theory Spec2Isabelle
  imports Complex_Main "HOL-Library.Stream"
begin

section \<open>Python primitives used by \<^verbatim>\<open>metaheuristic_algorithms.py\<close>\<close>

text \<open>
  Numbers: a node's load is a Python \<^verbatim>\<open>int\<close> until the Lion's nomad phase multiplies one
  by \<^verbatim>\<open>0.3\<close>; the loads that phase touches are \<^verbatim>\<open>float\<close>s from then on, and every
  operation in which a float takes part is rounded to double precision.  The model has
  one type of numbers, the rationals, and computes without rounding.  It agrees with the
  program on the sums and differences of integers, which Python computes exactly, hence
  on every load of a Bat, Crow or Monarch object, whose loads are sums of integer
  demands; where a float takes part, the program's result is the model's result,
  rounded.  For the loads that a Lion's nomad phase has moved, the theorems below
  therefore state an exact sum only for integer operands (\<open>integral\<close>), and otherwise only
  what rounding, which is monotone, preserves.

  Exceptions: every primitive that can raise returns a sum whose left injection is the
  exception.
\<close>

datatype error = IndexError | ValueError | ZeroDivisionError

definition py_div :: "rat \<Rightarrow> rat \<Rightarrow> error + rat" where
  "py_div a b = (if b = 0 then Inl ZeroDivisionError else Inr (a / b))"

text \<open>\<^verbatim>\<open>int(x)\<close> on a float truncates towards zero.\<close>

definition py_int :: "rat \<Rightarrow> int" where
  "py_int x = (if 0 \<le> x then \<lfloor>x\<rfloor> else \<lceil>x\<rceil>)"

text \<open>
  \<^verbatim>\<open>min(xs, key=f)\<close> and \<^verbatim>\<open>max(xs, key=f)\<close>: the key is computed once per element, in
  order; the first extremal element wins; an empty argument raises \<^verbatim>\<open>ValueError\<close>.
  The strict comparison of the keys is a parameter.
\<close>

fun min_loop :: "('k \<Rightarrow> 'k \<Rightarrow> bool) \<Rightarrow> ('a \<Rightarrow> error + 'k) \<Rightarrow> 'a \<Rightarrow> 'k \<Rightarrow> 'a list \<Rightarrow> error + 'a" where
  "min_loop lt key best kb [] = Inr best"
| "min_loop lt key best kb (x # xs) =
     (case key x of
        Inl e \<Rightarrow> Inl e
      | Inr kx \<Rightarrow> if lt kx kb then min_loop lt key x kx xs else min_loop lt key best kb xs)"

definition py_min :: "('k \<Rightarrow> 'k \<Rightarrow> bool) \<Rightarrow> ('a \<Rightarrow> error + 'k) \<Rightarrow> 'a list \<Rightarrow> error + 'a" where
  "py_min lt key xs =
     (case xs of
        [] \<Rightarrow> Inl ValueError
      | x # rest \<Rightarrow> (case key x of Inl e \<Rightarrow> Inl e | Inr k \<Rightarrow> min_loop lt key x k rest))"

fun max_loop :: "('k \<Rightarrow> 'k \<Rightarrow> bool) \<Rightarrow> ('a \<Rightarrow> error + 'k) \<Rightarrow> 'a \<Rightarrow> 'k \<Rightarrow> 'a list \<Rightarrow> error + 'a" where
  "max_loop lt key best kb [] = Inr best"
| "max_loop lt key best kb (x # xs) =
     (case key x of
        Inl e \<Rightarrow> Inl e
      | Inr kx \<Rightarrow> if lt kb kx then max_loop lt key x kx xs else max_loop lt key best kb xs)"

definition py_max :: "('k \<Rightarrow> 'k \<Rightarrow> bool) \<Rightarrow> ('a \<Rightarrow> error + 'k) \<Rightarrow> 'a list \<Rightarrow> error + 'a" where
  "py_max lt key xs =
     (case xs of
        [] \<Rightarrow> Inl ValueError
      | x # rest \<Rightarrow> (case key x of Inl e \<Rightarrow> Inl e | Inr k \<Rightarrow> max_loop lt key x k rest))"

text \<open>
  \<^verbatim>\<open>sorted(xs, key=f, reverse=True)\<close>: descending and stable (elements with equal keys
  keep their original order).
\<close>

fun insort_desc :: "('k \<Rightarrow> 'k \<Rightarrow> bool) \<Rightarrow> ('a \<Rightarrow> 'k) \<Rightarrow> 'a \<Rightarrow> 'a list \<Rightarrow> 'a list" where
  "insort_desc lt key x [] = [x]"
| "insort_desc lt key x (y # ys) =
     (if lt (key x) (key y) then y # insort_desc lt key x ys else x # y # ys)"

definition sorted_reverse :: "('k \<Rightarrow> 'k \<Rightarrow> bool) \<Rightarrow> ('a \<Rightarrow> 'k) \<Rightarrow> 'a list \<Rightarrow> 'a list" where
  "sorted_reverse lt key xs = foldr (insort_desc lt key) xs []"

text \<open>\<^verbatim>\<open>xs[i:j]\<close> for \<^verbatim>\<open>0 <= i <= j\<close>.\<close>

definition slice :: "'a list \<Rightarrow> nat \<Rightarrow> nat \<Rightarrow> 'a list" where
  "slice xs i j = take (j - i) (drop i xs)"

text \<open>\<^verbatim>\<open>range(0, n, step)\<close>; a zero step raises \<^verbatim>\<open>ValueError\<close>.\<close>

definition range_step :: "nat \<Rightarrow> nat \<Rightarrow> error + nat list" where
  "range_step n step =
     (if step = 0 then Inl ValueError
      else Inr (map (\<lambda>k. k * step) [0..<(n + step - 1) div step]))"

subsection \<open>The process-wide random source\<close>

text \<open>
  The module \<^verbatim>\<open>random\<close> is a process-wide generator that is never seeded.  It is modelled
  as an explicit, infinite stream of raw draws that every operation consumes from the
  front and hands on; a property proved for every stream holds for every outcome of the
  generator.

  \<^item> \<^verbatim>\<open>random.random()\<close> is a 53-bit integer divided by \<open>2^53\<close>, a value of \<open>[0, 1)\<close>;
  \<^item> \<^verbatim>\<open>random.randint(a, b)\<close> is an integer of \<open>[a, b]\<close>, \<^verbatim>\<open>ValueError\<close> when \<open>b < a\<close>;
  \<^item> \<^verbatim>\<open>random.uniform(a, b)\<close> is \<^verbatim>\<open>a + (b - a) * random()\<close>;
  \<^item> \<^verbatim>\<open>random.choice(xs)\<close> is an element of \<open>xs\<close>, \<^verbatim>\<open>IndexError\<close> when \<open>xs\<close> is empty;
  \<^item> \<^verbatim>\<open>random.sample(xs, k)\<close> is \<open>k\<close> elements at distinct positions of \<open>xs\<close>, in
    selection order, \<^verbatim>\<open>ValueError\<close> when \<open>k\<close> exceeds the length.
\<close>

type_synonym rng = "nat stream"

definition random_random :: "rng \<Rightarrow> rat \<times> rng" where
  "random_random g = (of_nat (shd g mod 2 ^ 53) / 2 ^ 53, stl g)"

definition randint :: "int \<Rightarrow> int \<Rightarrow> rng \<Rightarrow> error + (int \<times> rng)" where
  "randint a b g =
     (if b < a then Inl ValueError else Inr (a + int (shd g) mod (b - a + 1), stl g))"

definition random_uniform :: "rat \<Rightarrow> rat \<Rightarrow> rng \<Rightarrow> rat \<times> rng" where
  "random_uniform a b g = (let (u, g') = random_random g in (a + (b - a) * u, g'))"

definition random_choice :: "'a list \<Rightarrow> rng \<Rightarrow> error + ('a \<times> rng)" where
  "random_choice xs g =
     (if xs = [] then Inl IndexError else Inr (xs ! (shd g mod length xs), stl g))"

fun sample_loop :: "nat \<Rightarrow> 'a list \<Rightarrow> rng \<Rightarrow> 'a list \<times> rng" where
  "sample_loop 0 pool g = ([], g)"
| "sample_loop (Suc k) pool g =
     (let j = shd g mod length pool;
          (rest, g') = sample_loop k (take j pool @ drop (Suc j) pool) (stl g)
      in (pool ! j # rest, g'))"

definition random_sample :: "'a list \<Rightarrow> nat \<Rightarrow> rng \<Rightarrow> error + ('a list \<times> rng)" where
  "random_sample xs k g =
     (if length xs < k then Inl ValueError else Inr (sample_loop k xs g))"

section \<open>Data model\<close>

text \<open>
  A node and a task are Python dictionaries with a fixed set of keys.  The keys
  \<^verbatim>\<open>id\<close>, \<^verbatim>\<open>pe\<close> and \<^verbatim>\<open>length\<close> are prefixed with the record they belong to.
\<close>

record node =
  node_id :: nat
  node_pe :: nat
  mips :: int
  capacity :: rat
  current_load :: rat
  failed :: bool
  energy_coefficient :: rat

record task =
  task_id :: int
  task_length :: rat
  task_pe :: nat
  mips_required :: rat
  priority :: nat

text \<open>
  The node dictionaries are created once, stay in \<^verbatim>\<open>self.nodes\<close> in creation order, and are
  mutated in place.  Every other structure that holds a node (a territory, the nomad
  list, a memory slot, a local \<^verbatim>\<open>active_nodes\<close> list) holds a reference to it: the model
  writes such a reference as the node's position in \<^verbatim>\<open>self.nodes\<close>.
\<close>

text \<open>\<^verbatim>\<open>float('inf')\<close> and the finite fitness values.\<close>

datatype xrat = Fin rat | PInf

fun xless :: "xrat \<Rightarrow> xrat \<Rightarrow> bool" where
  "xless (Fin a) (Fin b) = (a < b)"
| "xless (Fin a) PInf = True"
| "xless PInf y = False"

record territory =
  t_nodes :: "nat list"
  best_fitness :: xrat
  best_node :: "nat option"

record lion =
  pride_size :: nat
  territories :: "territory list"
  nomads :: "nat list"
  migration_threshold :: rat

record bat =
  loudness :: rat
  pulse_rate :: rat

record memory_slot =
  mem_node :: nat
  mem_load :: rat

record crow =
  memory :: "memory_slot option list"
  flight_length :: rat

record monarch =
  bar :: rat

text \<open>The four subclasses of \<^verbatim>\<open>MetaheuristicAlgorithm\<close>, as a closed union of their own fields.\<close>

datatype variant = Lion lion | Bat bat | Crow crow | Monarch monarch

record algo =
  num_nodes :: nat
  num_tasks :: nat
  nodes :: "node list"
  tasks :: "task list"
  fault_probability :: rat
  min_nodes_for_operation :: nat
  completed_tasks :: int
  variant :: variant

text \<open>
  The outcome of a method: it returns, or it raises; an exception leaves the object as
  mutated so far, which \<open>Raise\<close> carries.
\<close>

datatype 'a result = Raise error algo | Return 'a

section \<open>Construction\<close>

text \<open>
  \<^verbatim>\<open>initialize_nodes\<close> and \<^verbatim>\<open>generate_tasks\<close>: one dictionary per index, the random draws in
  the order of the keys.  \<^verbatim>\<open>num_nodes\<close> and \<^verbatim>\<open>num_tasks\<close> are natural numbers (a negative
  argument gives empty ranges, as zero does).
\<close>

fun initialize_nodes_loop :: "nat list \<Rightarrow> rng \<Rightarrow> error + (node list \<times> rng)" where
  "initialize_nodes_loop [] g = Inr ([], g)"
| "initialize_nodes_loop (i # ids) g =
     (case randint 2000 4000 g of
        Inl e \<Rightarrow> Inl e
      | Inr (m, g1) \<Rightarrow>
          (case randint 2000 4000 g1 of
             Inl e \<Rightarrow> Inl e
           | Inr (c, g2) \<Rightarrow>
               (let (ec, g3) = random_uniform (1 / 1000) (3 / 1000) g2 in
                case initialize_nodes_loop ids g3 of
                  Inl e \<Rightarrow> Inl e
                | Inr (rest, g4) \<Rightarrow>
                    Inr (\<lparr>node_id = i, node_pe = 4, mips = m, capacity = of_int (4 * c),
                          current_load = 0, failed = False, energy_coefficient = ec\<rparr> # rest,
                         g4))))"

definition initialize_nodes :: "nat \<Rightarrow> rng \<Rightarrow> error + (node list \<times> rng)" where
  "initialize_nodes n g = initialize_nodes_loop [0..<n] g"

fun generate_tasks_loop :: "nat list \<Rightarrow> rng \<Rightarrow> error + (task list \<times> rng)" where
  "generate_tasks_loop [] g = Inr ([], g)"
| "generate_tasks_loop (i # ids) g =
     (case randint 200 4000 g of
        Inl e \<Rightarrow> Inl e
      | Inr (len, g1) \<Rightarrow>
          (case randint 200 4000 g1 of
             Inl e \<Rightarrow> Inl e
           | Inr (req, g2) \<Rightarrow>
               (case random_choice [1, 2, 3] g2 of
                  Inl e \<Rightarrow> Inl e
                | Inr (prio, g3) \<Rightarrow>
                    (case generate_tasks_loop ids g3 of
                       Inl e \<Rightarrow> Inl e
                     | Inr (rest, g4) \<Rightarrow>
                         Inr (\<lparr>task_id = int i, task_length = of_int len, task_pe = 1,
                               mips_required = of_int req, priority = prio\<rparr> # rest,
                              g4)))))"

definition generate_tasks :: "nat \<Rightarrow> rng \<Rightarrow> error + (task list \<times> rng)" where
  "generate_tasks n g = generate_tasks_loop [0..<n] g"

text \<open>\<^verbatim>\<open>MetaheuristicAlgorithm.__init__\<close>, given the fields of the subclass.\<close>

definition base_init :: "nat \<Rightarrow> nat \<Rightarrow> variant \<Rightarrow> rng \<Rightarrow> error + (algo \<times> rng)" where
  "base_init n m v g =
     (case initialize_nodes n g of
        Inl e \<Rightarrow> Inl e
      | Inr (ns, g1) \<Rightarrow>
          (case generate_tasks m g1 of
             Inl e \<Rightarrow> Inl e
           | Inr (ts, g2) \<Rightarrow>
               Inr (\<lparr>num_nodes = n, num_tasks = m, nodes = ns, tasks = ts,
                     fault_probability = 1 / 20, min_nodes_for_operation = 3,
                     completed_tasks = 0, variant = v\<rparr>, g2)))"

text \<open>
  \<^verbatim>\<open>LionOptimizationLB._initialize_territories\<close>: \<open>n\<close> is \<^verbatim>\<open>self.num_nodes\<close>, \<open>p\<close> is
  \<^verbatim>\<open>self.pride_size\<close>, \<open>refs\<close> are the references of \<^verbatim>\<open>self.nodes\<close> in order.
\<close>

definition new_territory :: "nat list \<Rightarrow> territory" where
  "new_territory members = \<lparr>t_nodes = members, best_fitness = PInf, best_node = None\<rparr>"

definition initialize_territories :: "nat \<Rightarrow> nat \<Rightarrow> nat list \<Rightarrow> error + territory list" where
  "initialize_territories n p refs =
     (case range_step n p of
        Inl e \<Rightarrow> Inl e
      | Inr starts \<Rightarrow>
          (let territory_nodes = map (\<lambda>i. slice refs i (i + p)) starts;
               found = map new_territory (filter (\<lambda>members. 2 \<le> length members) territory_nodes)
           in Inr (if found = [] then [new_territory refs] else found)))"

text \<open>The body of \<^verbatim>\<open>LionOptimizationLB.__init__\<close> after the call of the base constructor.\<close>

definition lion_init :: "algo \<Rightarrow> error + lion" where
  "lion_init s =
     (let p = max 5 (num_nodes s div 4) in
      case initialize_territories (num_nodes s) p [0..<length (nodes s)] of
        Inl e \<Rightarrow> Inl e
      | Inr ts \<Rightarrow>
          Inr \<lparr>pride_size = p, territories = ts, nomads = [], migration_threshold = 4 / 5\<rparr>)"

definition LionOptimizationLB :: "nat \<Rightarrow> nat \<Rightarrow> rng \<Rightarrow> error + (algo \<times> rng)" where
  "LionOptimizationLB n m g =
     (case base_init n m (Lion \<lparr>pride_size = 0, territories = [], nomads = [],
                                 migration_threshold = 0\<rparr>) g of
        Inl e \<Rightarrow> Inl e
      | Inr (s, g1) \<Rightarrow>
          (case lion_init s of
             Inl e \<Rightarrow> Inl e
           | Inr l \<Rightarrow> Inr (s\<lparr>variant := Lion l\<rparr>, g1)))"

definition BatAlgorithm :: "nat \<Rightarrow> nat \<Rightarrow> rng \<Rightarrow> error + (algo \<times> rng)" where
  "BatAlgorithm n m g = base_init n m (Bat \<lparr>loudness = 1 / 2, pulse_rate = 1 / 2\<rparr>) g"

definition CrowSearchAlgorithm :: "nat \<Rightarrow> nat \<Rightarrow> rng \<Rightarrow> error + (algo \<times> rng)" where
  "CrowSearchAlgorithm n m g =
     base_init n m (Crow \<lparr>memory = replicate n None, flight_length = 1 / 10\<rparr>) g"

definition MonarchButterflyOptimization :: "nat \<Rightarrow> nat \<Rightarrow> rng \<Rightarrow> error + (algo \<times> rng)" where
  "MonarchButterflyOptimization n m g = base_init n m (Monarch \<lparr>bar = 5\<rparr>) g"

section \<open>The allocation strategies\<close>

text \<open>\<^verbatim>\<open>not n['failed'] and n['capacity'] > 0\<close>\<close>

definition is_active :: "node \<Rightarrow> bool" where
  "is_active n = (\<not> failed n \<and> 0 < capacity n)"

definition active_nodes :: "node list \<Rightarrow> nat list" where
  "active_nodes ns = filter (\<lambda>i. is_active (ns ! i)) [0..<length ns]"

text \<open>\<^verbatim>\<open>(n['current_load'] + task['mips_required']) <= n['capacity']\<close>\<close>

definition fits :: "node list \<Rightarrow> nat \<Rightarrow> task \<Rightarrow> bool" where
  "fits ns i t = (current_load (ns ! i) + mips_required t \<le> capacity (ns ! i))"

text \<open>\<^verbatim>\<open>n['current_load'] += x\<close> on the node referenced by \<open>i\<close>\<close>

definition add_load :: "node list \<Rightarrow> nat \<Rightarrow> rat \<Rightarrow> node list" where
  "add_load ns i x = ns[i := (ns ! i)\<lparr>current_load := current_load (ns ! i) + x\<rparr>]"

text \<open>\<^verbatim>\<open>n['current_load'] -= x\<close> on the node referenced by \<open>i\<close>\<close>

definition sub_load :: "node list \<Rightarrow> nat \<Rightarrow> rat \<Rightarrow> node list" where
  "sub_load ns i x = ns[i := (ns ! i)\<lparr>current_load := current_load (ns ! i) - x\<rparr>]"

text \<open>
  The numbers that Python holds as \<^verbatim>\<open>int\<close>: the loads of a pool whose nodes have only
  received the demands of generated tasks, and those demands.
\<close>

definition integral :: "rat \<Rightarrow> bool" where
  "integral x = (of_int \<lfloor>x\<rfloor> = x)"

definition integral_loads :: "node list \<Rightarrow> bool" where
  "integral_loads ns = list_all (\<lambda>n. integral (current_load n)) ns"

text \<open>\<^verbatim>\<open>lambda n: n['current_load'] / n['capacity']\<close>\<close>

definition utilization :: "node list \<Rightarrow> nat \<Rightarrow> error + rat" where
  "utilization ns i = py_div (current_load (ns ! i)) (capacity (ns ! i))"

subsection \<open>Bat\<close>

definition bat_allocate :: "algo \<Rightarrow> bat \<Rightarrow> task \<Rightarrow> rng \<Rightarrow> (bool \<times> algo \<times> rng) result" where
  "bat_allocate s b t g =
     (let ns = nodes s; active = active_nodes ns in
      if active = [] then Return (False, s, g)
      else
        case py_min (<) (utilization ns) active of
          Inl e \<Rightarrow> Raise e s
        | Inr best \<Rightarrow>
            (let try_best = (\<lambda>g'.
                   if fits ns best t
                   then Return (True, s\<lparr>nodes := add_load ns best (mips_required t)\<rparr>, g')
                   else Return (False, s, g'));
                 (u, g1) = random_random g
             in if pulse_rate b < u then
                  (case random_choice active g1 of
                     Inl e \<Rightarrow> Raise e s
                   | Inr (candidate, g2) \<Rightarrow>
                       if fits ns candidate t
                       then Return (True, s\<lparr>nodes := add_load ns candidate (mips_required t)\<rparr>, g2)
                       else try_best g2)
                else try_best g1))"

subsection \<open>Monarch Butterfly\<close>

definition monarch_allocate :: "algo \<Rightarrow> monarch \<Rightarrow> task \<Rightarrow> rng \<Rightarrow> (bool \<times> algo \<times> rng) result" where
  "monarch_allocate s m t g =
     (let ns = nodes s; active = active_nodes ns in
      if active = [] then Return (False, s, g)
      else
        let (u, g1) = random_random g in
        case py_div (bar m) (bar m + 1) of
          Inl e \<Rightarrow> Raise e s
        | Inr p \<Rightarrow>
            if u < p then
              (case py_max (<) (utilization ns) active of
                 Inl e \<Rightarrow> Raise e s
               | Inr src \<Rightarrow>
                   (case py_min (<) (utilization ns) active of
                      Inl e \<Rightarrow> Raise e s
                    | Inr dst \<Rightarrow>
                        if fits ns dst t
                        then Return (True, s\<lparr>nodes := add_load ns dst (mips_required t)\<rparr>, g1)
                        else Return (False, s, g1)))
            else
              (case random_choice active g1 of
                 Inl e \<Rightarrow> Raise e s
               | Inr (chosen, g2) \<Rightarrow>
                   if fits ns chosen t
                   then Return (True, s\<lparr>nodes := add_load ns chosen (mips_required t)\<rparr>, g2)
                   else Return (False, s, g2)))"

subsection \<open>Crow Search\<close>

text \<open>
  The refresh loop \<^verbatim>\<open>for i, node in enumerate(self.nodes)\<close>.  \<^verbatim>\<open>node in active_nodes\<close>
  compares dictionaries by value; \<^verbatim>\<open>self.memory[i]\<close> raises \<^verbatim>\<open>IndexError\<close> when the memory is
  shorter than the pool, and is evaluated only for a node found active.
\<close>

fun refresh_memory ::
  "node list \<Rightarrow> nat list \<Rightarrow> nat list \<Rightarrow> memory_slot option list
     \<Rightarrow> (error \<times> memory_slot option list) + memory_slot option list" where
  "refresh_memory ns active [] mem = Inr mem"
| "refresh_memory ns active (i # rest) mem =
     (if ns ! i \<in> set (map (\<lambda>j. ns ! j) active) then
        (if i < length mem then
           (case mem ! i of
              None \<Rightarrow> refresh_memory ns active rest mem
            | Some slot \<Rightarrow>
                refresh_memory ns active rest
                  (mem[i := Some (slot\<lparr>mem_load := current_load (ns ! i)\<rparr>)]))
         else Inl (IndexError, mem))
      else refresh_memory ns active rest mem)"

definition valid_memories :: "node list \<Rightarrow> memory_slot option list \<Rightarrow> memory_slot list" where
  "valid_memories ns mem =
     concat (map (\<lambda>m. case m of
                          None \<Rightarrow> []
                        | Some slot \<Rightarrow> if is_active (ns ! mem_node slot) then [slot] else []) mem)"

definition crow_allocate :: "algo \<Rightarrow> crow \<Rightarrow> task \<Rightarrow> rng \<Rightarrow> (bool \<times> algo \<times> rng) result" where
  "crow_allocate s c t g =
     (let ns = nodes s; active = active_nodes ns in
      if active = [] then Return (False, s, g)
      else
        let mem0 = (if \<not> list_ex (\<lambda>m. m \<noteq> None) (memory c)
                    then map (\<lambda>n. Some \<lparr>mem_node = n, mem_load = current_load (ns ! n)\<rparr>) active
                    else memory c)
        in case refresh_memory ns active [0..<length ns] mem0 of
             Inl (e, mem) \<Rightarrow> Raise e (s\<lparr>variant := Crow (c\<lparr>memory := mem\<rparr>)\<rparr>)
           | Inr mem \<Rightarrow>
               (let s1 = s\<lparr>variant := Crow (c\<lparr>memory := mem\<rparr>)\<rparr>;
                    valid = valid_memories ns mem
                in if valid = [] then Return (False, s1, g)
                   else
                     case py_min (<) (\<lambda>m. py_div (mem_load m) (capacity (ns ! mem_node m))) valid of
                       Inl e \<Rightarrow> Raise e s1
                     | Inr best_memory \<Rightarrow>
                         if fits ns (mem_node best_memory) t
                         then Return (True,
                                s1\<lparr>nodes := add_load ns (mem_node best_memory) (mips_required t)\<rparr>, g)
                         else Return (False, s1, g)))"

subsection \<open>Lion\<close>

text \<open>\<^verbatim>\<open>_calculate_fitness\<close>: the division stands under the guard on the capacity.\<close>

definition calculate_fitness :: "node \<Rightarrow> xrat" where
  "calculate_fitness n =
     (if failed n \<or> capacity n \<le> 0 then PInf else Fin (current_load n / capacity n * 100))"

definition fitness_key :: "node list \<Rightarrow> nat \<Rightarrow> error + xrat" where
  "fitness_key ns i = Inr (calculate_fitness (ns ! i))"

text \<open>
  \<^verbatim>\<open>_hunting_phase\<close>: the loop over the territories.  The second argument holds the
  territories already visited, the third those still to visit.  The result is \<open>None\<close> for
  \<^verbatim>\<open>return False\<close> and the mutated pool and territories for \<^verbatim>\<open>return True\<close>.
\<close>

fun hunting_loop ::
  "node list \<Rightarrow> task \<Rightarrow> territory list \<Rightarrow> territory list \<Rightarrow> rng
     \<Rightarrow> error + ((node list \<times> territory list) option \<times> rng)" where
  "hunting_loop ns t visited [] g = Inr (None, g)"
| "hunting_loop ns t visited (terr # rest) g =
     (let active = filter (\<lambda>i. is_active (ns ! i)) (t_nodes terr) in
      if length active < 2 then hunting_loop ns t (visited @ [terr]) rest g
      else
        let (u, g1) = random_random g in
        if u < 7 / 10 then
          (let num_hunters = max 2 (min (length active div 2) (length active)) in
           case random_sample active num_hunters g1 of
             Inl e \<Rightarrow> Inl e
           | Inr (hunters, g2) \<Rightarrow>
               (case py_min xless (fitness_key ns) hunters of
                  Inl e \<Rightarrow> Inl e
                | Inr best_hunter \<Rightarrow>
                    if fits ns best_hunter t then
                      (let ns' = add_load ns best_hunter (mips_required t);
                           current_fit = calculate_fitness (ns' ! best_hunter);
                           terr' = (if xless current_fit (best_fitness terr)
                                    then terr\<lparr>best_fitness := current_fit,
                                              best_node := Some best_hunter\<rparr>
                                    else terr)
                       in Inr (Some (ns', visited @ terr' # rest), g2))
                    else hunting_loop ns t (visited @ [terr]) rest g2))
        else hunting_loop ns t (visited @ [terr]) rest g1)"

text \<open>
  \<^verbatim>\<open>_nomad_phase\<close>: the loop over the cached nomads.  \<^verbatim>\<open>n != nomad\<close> compares dictionaries
  by value.  The result is \<open>None\<close> when the loop ends without a migration.  The product
  by \<^verbatim>\<open>0.3\<close> is a float: the program rounds it, and the difference and the sum that take
  it, where this function computes them exactly.
\<close>

fun nomad_loop :: "node list \<Rightarrow> rat \<Rightarrow> task \<Rightarrow> nat list \<Rightarrow> error + node list option" where
  "nomad_loop ns thr t [] = Inr None"
| "nomad_loop ns thr t (nomad # rest) =
     (if capacity (ns ! nomad) * thr < current_load (ns ! nomad) then
        (let active = filter (\<lambda>i. is_active (ns ! i) \<and> ns ! i \<noteq> ns ! nomad) [0..<length ns] in
         if active = [] then nomad_loop ns thr t rest
         else
           case py_min xless (fitness_key ns) active of
             Inl e \<Rightarrow> Inl e
           | Inr recipient \<Rightarrow>
               (let migratable =
                      min (current_load (ns ! nomad) * (3 / 10))
                        (min (mips_required t)
                           (capacity (ns ! recipient) - current_load (ns ! recipient)))
                in if 0 < migratable then
                     Inr (Some (add_load (sub_load ns nomad migratable) recipient migratable))
                   else nomad_loop ns thr t rest))
      else nomad_loop ns thr t rest)"

definition nomad_scan :: "algo \<Rightarrow> lion \<Rightarrow> task \<Rightarrow> (bool \<times> algo) result" where
  "nomad_scan s l t =
     (case nomad_loop (nodes s) (migration_threshold l) t (nomads l) of
        Inl e \<Rightarrow> Raise e s
      | Inr None \<Rightarrow> Return (False, s)
      | Inr (Some ns') \<Rightarrow> Return (True, s\<lparr>nodes := ns'\<rparr>))"

definition nomad_phase :: "algo \<Rightarrow> lion \<Rightarrow> task \<Rightarrow> (bool \<times> algo) result" where
  "nomad_phase s l t =
     (if nomads l = [] then
        (let ns = nodes s; active = active_nodes ns in
         if active = [] then Return (False, s)
         else
           let l1 = l\<lparr>nomads := take (max 2 (num_nodes s div 10))
                                   (sorted_reverse xless (\<lambda>i. calculate_fitness (ns ! i)) active)\<rparr>
           in nomad_scan (s\<lparr>variant := Lion l1\<rparr>) l1 t)
      else nomad_scan s l t)"

definition lion_allocate :: "algo \<Rightarrow> lion \<Rightarrow> task \<Rightarrow> rng \<Rightarrow> (bool \<times> algo \<times> rng) result" where
  "lion_allocate s l t g =
     (case hunting_loop (nodes s) t [] (territories l) g of
        Inl e \<Rightarrow> Raise e s
      | Inr (Some (ns', ts'), g1) \<Rightarrow>
          Return (True, s\<lparr>nodes := ns', variant := Lion (l\<lparr>territories := ts'\<rparr>)\<rparr>, g1)
      | Inr (None, g1) \<Rightarrow>
          (case nomad_phase s l t of
             Raise e s' \<Rightarrow> Raise e s'
           | Return (moved, s1) \<Rightarrow>
               if moved then Return (True, s1, g1)
               else
                 (let ns = nodes s1; active = active_nodes ns in
                  if active \<noteq> [] then
                    (case py_min xless (fitness_key ns) active of
                       Inl e \<Rightarrow> Raise e s1
                     | Inr best_global \<Rightarrow>
                         if fits ns best_global t
                         then Return (True,
                                s1\<lparr>nodes := add_load ns best_global (mips_required t)\<rparr>, g1)
                         else Return (False, s1, g1))
                  else Return (False, s1, g1))))"

subsection \<open>Dispatch\<close>

text \<open>\<^verbatim>\<open>self.allocate_task(task)\<close>: the method of the object's class.\<close>

definition allocate_task :: "algo \<Rightarrow> task \<Rightarrow> rng \<Rightarrow> (bool \<times> algo \<times> rng) result" where
  "allocate_task s t g =
     (case variant s of
        Lion l \<Rightarrow> lion_allocate s l t g
      | Bat b \<Rightarrow> bat_allocate s b t g
      | Crow c \<Rightarrow> crow_allocate s c t g
      | Monarch m \<Rightarrow> monarch_allocate s m t g)"

section \<open>Fault injection, the run and the metrics\<close>

text \<open>
  \<^verbatim>\<open>simulate_failure\<close>.  \<^verbatim>\<open>int(self.num_nodes * 0.1)\<close> is the integer quotient by ten (the
  float product never falls below it).
\<close>

definition migration_task :: "rat \<Rightarrow> task" where
  "migration_task load =
     \<lparr>task_id = - 1, task_length = load, task_pe = 1, mips_required = load, priority = 1\<rparr>"

definition max_failures :: "algo \<Rightarrow> nat" where
  "max_failures s = max 1 (num_nodes s div 10)"

definition current_failures :: "algo \<Rightarrow> nat" where
  "current_failures s = length (filter failed (nodes s))"

definition not_failed_refs :: "node list \<Rightarrow> nat list" where
  "not_failed_refs ns = filter (\<lambda>i. \<not> failed (ns ! i)) [0..<length ns]"

definition simulate_failure :: "algo \<Rightarrow> rng \<Rightarrow> (algo \<times> rng) result" where
  "simulate_failure s g =
     (let active = not_failed_refs (nodes s) in
      if length active \<le> min_nodes_for_operation s then Return (s, g)
      else if max_failures s \<le> current_failures s then Return (s, g)
      else
        case random_choice active g of
          Inl e \<Rightarrow> Raise e s
        | Inr (victim, g1) \<Rightarrow>
            (let (u, g2) = random_random g1 in
             if u < fault_probability s then
               (let s1 = s\<lparr>nodes := (nodes s)[victim := (nodes s ! victim)\<lparr>failed := True\<rparr>]\<rparr> in
                if 0 < current_load (nodes s1 ! victim) then
                  (case allocate_task s1 (migration_task (current_load (nodes s1 ! victim))) g2 of
                     Raise e s' \<Rightarrow> Raise e s'
                   | Return (migrated, s2, g3) \<Rightarrow>
                       if migrated then
                         Return (s2\<lparr>nodes := (nodes s2)[victim := (nodes s2 ! victim)
                                                              \<lparr>current_load := 0\<rparr>]\<rparr>, g3)
                       else
                         Return (s2\<lparr>completed_tasks := completed_tasks s2
                                       - py_int (current_load (nodes s2 ! victim) / 1000)\<rparr>, g3))
                else Return (s1, g2))
             else Return (s, g2)))"

record metrics =
  avg_response_time :: rat
  throughput :: rat
  fault_tolerance :: rat
  energy_consumption :: rat
  m_active_nodes :: nat
  m_completed_tasks :: int

text \<open>\<^verbatim>\<open>calculate_metrics\<close> reads the object and mutates nothing; each division is guarded.\<close>

definition calculate_metrics :: "algo \<Rightarrow> metrics" where
  "calculate_metrics s =
     (let active = filter (\<lambda>n. \<not> failed n) (nodes s);
          failed_nodes = filter failed (nodes s);
          response_times =
            map (\<lambda>n. 1 / 10 + min 1 (current_load n / capacity n) * (9 / 10))
              (filter (\<lambda>n. 0 < capacity n) active);
          tp = (if 0 < num_tasks s
                then of_int (completed_tasks s) / of_nat (num_tasks s) * 100 else 0);
          recovered_nodes = length (filter (\<lambda>n. current_load n = 0) failed_nodes);
          ft = (if failed_nodes \<noteq> []
                then of_nat recovered_nodes / of_nat (length failed_nodes) * 100 else 100);
          energy = sum_list (map (\<lambda>n. current_load n * energy_coefficient n) active)
      in \<lparr>avg_response_time =
            (if response_times \<noteq> []
             then sum_list response_times / of_nat (length response_times) else 1 / 2),
          throughput = min 100 tp,
          fault_tolerance = min 100 ft,
          energy_consumption = energy,
          m_active_nodes = length active,
          m_completed_tasks = completed_tasks s\<rparr>)"

text \<open>\<^verbatim>\<open>run\<close>: the loop over \<^verbatim>\<open>self.tasks\<close>, then the metrics.\<close>

fun run_loop :: "algo \<Rightarrow> task list \<Rightarrow> rng \<Rightarrow> (algo \<times> rng) result" where
  "run_loop s [] g = Return (s, g)"
| "run_loop s (t # rest) g =
     (case allocate_task s t g of
        Raise e s' \<Rightarrow> Raise e s'
      | Return (placed, s1, g1) \<Rightarrow>
          (let s2 = (if placed then s1\<lparr>completed_tasks := completed_tasks s1 + 1\<rparr> else s1);
               (u, g2) = random_random g1
           in if u < 1 / 10 then
                (case simulate_failure s2 g2 of
                   Raise e s' \<Rightarrow> Raise e s'
                 | Return (s3, g3) \<Rightarrow> run_loop s3 rest g3)
              else run_loop s2 rest g2))"

definition run :: "algo \<Rightarrow> rng \<Rightarrow> (metrics \<times> algo \<times> rng) result" where
  "run s g =
     (case run_loop (s\<lparr>completed_tasks := 0\<rparr>) (tasks s) g of
        Raise e s' \<Rightarrow> Raise e s'
      | Return (s', g') \<Rightarrow> Return (calculate_metrics s', s', g'))"

section \<open>Well-formed objects and reachable states\<close>

text \<open>
  Every reference held by a territory, the nomad list or a memory slot points into
  \<^verbatim>\<open>self.nodes\<close>: in Python a reference always points to an object, and the pool never
  shrinks.
\<close>

definition refs_ok :: "algo \<Rightarrow> bool" where
  "refs_ok s =
     (case variant s of
        Lion l \<Rightarrow>
          list_all (\<lambda>terr. list_all (\<lambda>i. i < length (nodes s)) (t_nodes terr)) (territories l) \<and>
          list_all (\<lambda>i. i < length (nodes s)) (nomads l)
      | Crow c \<Rightarrow>
          list_all (\<lambda>m. case m of None \<Rightarrow> True | Some slot \<Rightarrow> mem_node slot < length (nodes s))
            (memory c)
      | _ \<Rightarrow> True)"

text \<open>
  How one call of \<^verbatim>\<open>allocate_task\<close> on the object \<open>s\<close> may change the fields of the subclass:
  a territory keeps its nodes, the nomad list is kept or drawn from the active nodes, the
  memory keeps the node of every slot or is seeded from the active nodes; Bat and Monarch
  have no mutable field.
\<close>

definition variant_step :: "algo \<Rightarrow> variant \<Rightarrow> bool" where
  "variant_step s v =
     (case (variant s, v) of
        (Lion l, Lion l') \<Rightarrow>
          pride_size l' = pride_size l \<and> migration_threshold l' = migration_threshold l \<and>
          map t_nodes (territories l') = map t_nodes (territories l) \<and>
          set (nomads l') \<subseteq> set (nomads l) \<union> set (active_nodes (nodes s))
      | (Bat b, Bat b') \<Rightarrow> b' = b
      | (Crow c, Crow c') \<Rightarrow>
          flight_length c' = flight_length c \<and>
          (map (map_option mem_node) (memory c') = map (map_option mem_node) (memory c) \<or>
           map (map_option mem_node) (memory c') = map Some (active_nodes (nodes s)))
      | (Monarch m, Monarch m') \<Rightarrow> m' = m
      | _ \<Rightarrow> False)"

text \<open>
  The states an object can reach from \<open>s0\<close> by calls of \<^verbatim>\<open>allocate_task\<close> and
  \<^verbatim>\<open>simulate_failure\<close>, in any order and with any outcome of the random source, and by the
  updates of the counter that \<^verbatim>\<open>run\<close> makes between them.  A call that raises leaves the
  object as mutated so far.
\<close>

inductive reachable :: "algo \<Rightarrow> algo \<Rightarrow> bool" for s0 :: algo where
  start: "reachable s0 s0"
| allocate_returns:
    "reachable s0 s \<Longrightarrow> allocate_task s t g = Return (b, s', g') \<Longrightarrow> reachable s0 s'"
| allocate_raises:
    "reachable s0 s \<Longrightarrow> allocate_task s t g = Raise e s' \<Longrightarrow> reachable s0 s'"
| failure_returns:
    "reachable s0 s \<Longrightarrow> simulate_failure s g = Return (s', g') \<Longrightarrow> reachable s0 s'"
| failure_raises:
    "reachable s0 s \<Longrightarrow> simulate_failure s g = Raise e s' \<Longrightarrow> reachable s0 s'"
| counter: "reachable s0 s \<Longrightarrow> reachable s0 (s\<lparr>completed_tasks := n\<rparr>)"

section \<open>The states of a run\<close>

text \<open>
  The program calls the methods of an object in one order only: the driver constructs
  the object and calls \<^verbatim>\<open>run\<close>, and \<^verbatim>\<open>run\<close> resets the counter, then for each task calls
  \<^verbatim>\<open>allocate_task\<close>, updates the counter and, on a random draw, calls \<^verbatim>\<open>simulate_failure\<close>,
  which itself calls \<^verbatim>\<open>allocate_task\<close> for the migration after it has marked its victim.
  \<open>run_reaches p s\<close> says that some run, for some tasks and some outcome of the random
  source, brings the object into the state \<open>s\<close> at the point \<open>p\<close>: where \<^verbatim>\<open>run\<close> calls
  \<^verbatim>\<open>allocate_task\<close>, where it decides on the failure check, or where \<^verbatim>\<open>simulate_failure\<close>
  calls \<^verbatim>\<open>allocate_task\<close>.
\<close>

datatype point = At_allocation | At_failure_check | At_migration

inductive run_reaches :: "point \<Rightarrow> algo \<Rightarrow> bool" where
  constructed_lion: "LionOptimizationLB n m g = Inr (s, g') \<Longrightarrow> run_reaches At_allocation s"
| constructed_bat: "BatAlgorithm n m g = Inr (s, g') \<Longrightarrow> run_reaches At_allocation s"
| constructed_crow: "CrowSearchAlgorithm n m g = Inr (s, g') \<Longrightarrow> run_reaches At_allocation s"
| constructed_monarch:
    "MonarchButterflyOptimization n m g = Inr (s, g') \<Longrightarrow> run_reaches At_allocation s"
| reset: "run_reaches At_allocation s \<Longrightarrow> run_reaches At_allocation (s\<lparr>completed_tasks := 0\<rparr>)"
| allocated:
    "run_reaches At_allocation s \<Longrightarrow> allocate_task s t g = Return (placed, s', g') \<Longrightarrow>
     run_reaches At_failure_check
       (if placed then s'\<lparr>completed_tasks := completed_tasks s' + 1\<rparr> else s')"
| no_failure: "run_reaches At_failure_check s \<Longrightarrow> run_reaches At_allocation s"
| failure:
    "run_reaches At_failure_check s \<Longrightarrow> simulate_failure s g = Return (s', g') \<Longrightarrow>
     run_reaches At_allocation s'"
| migration:
    "run_reaches At_failure_check s \<Longrightarrow> victim \<in> set (not_failed_refs (nodes s)) \<Longrightarrow>
     run_reaches At_migration
       (s\<lparr>nodes := (nodes s)[victim := (nodes s ! victim)\<lparr>failed := True\<rparr>]\<rparr>)"

text \<open>
  The Crow's memory is aligned with the pool: one slot per node, in the order of the
  pool, each slot empty or remembering the node at its own position.
\<close>

definition memory_aligned :: "node list \<Rightarrow> memory_slot option list \<Rightarrow> bool" where
  "memory_aligned ns mem =
     (length mem = length ns \<and>
      (\<forall>i<length mem. case mem ! i of None \<Rightarrow> True | Some slot \<Rightarrow> mem_node slot = i))"

text \<open>
  What every state of a run satisfies.  The pool has \<^verbatim>\<open>num_nodes\<close> nodes, whose \<^verbatim>\<open>id\<close>s are
  their positions; the Monarch's \<^verbatim>\<open>bar\<close> is the constant of the constructor; the Crow's
  memory has a slot for every node, remembering that node, or it is still as constructed
  (all slots empty), which is possible only where \<^verbatim>\<open>run\<close> calls \<^verbatim>\<open>allocate_task\<close> and then
  no node has failed yet.
\<close>

definition memory_seeded :: "node list \<Rightarrow> memory_slot option list \<Rightarrow> bool" where
  "memory_seeded ns mem =
     (length mem = length ns \<and>
      (\<forall>i<length mem. case mem ! i of None \<Rightarrow> False | Some slot \<Rightarrow> mem_node slot = i))"

definition memory_fresh :: "node list \<Rightarrow> memory_slot option list \<Rightarrow> bool" where
  "memory_fresh ns mem = (mem = replicate (length ns) None \<and> list_all is_active ns)"

definition run_invariant :: "point \<Rightarrow> algo \<Rightarrow> bool" where
  "run_invariant p s =
     (length (nodes s) = num_nodes s \<and>
      (\<forall>i<length (nodes s). node_id (nodes s ! i) = i) \<and>
      (case variant s of
         Crow c \<Rightarrow>
           memory_seeded (nodes s) (memory c) \<or>
           (p = At_allocation \<and> memory_fresh (nodes s) (memory c))
       | Monarch m \<Rightarrow> bar m = 5
       | _ \<Rightarrow> True))"

section \<open>Concrete objects\<close>

text \<open>
  Small pools and tasks on which the theorems below are instantiated.  \<open>mk_algo\<close> sets the
  fields of the base class as \<^verbatim>\<open>__init__\<close> does.
\<close>

definition mk_node :: "nat \<Rightarrow> rat \<Rightarrow> rat \<Rightarrow> bool \<Rightarrow> node" where
  "mk_node i cap load f =
     \<lparr>node_id = i, node_pe = 4, mips = 2000, capacity = cap, current_load = load,
      failed = f, energy_coefficient = 1 / 1000\<rparr>"

definition mk_task :: "int \<Rightarrow> rat \<Rightarrow> task" where
  "mk_task i req =
     \<lparr>task_id = i, task_length = req, task_pe = 1, mips_required = req, priority = 1\<rparr>"

definition mk_algo :: "node list \<Rightarrow> task list \<Rightarrow> variant \<Rightarrow> algo" where
  "mk_algo ns ts v =
     \<lparr>num_nodes = length ns, num_tasks = length ts, nodes = ns, tasks = ts,
      fault_probability = 1 / 20, min_nodes_for_operation = 3, completed_tasks = 0,
      variant = v\<rparr>"

definition bat_fields :: bat where
  "bat_fields = \<lparr>loudness = 1 / 2, pulse_rate = 1 / 2\<rparr>"

text \<open>Two empty nodes of capacity 8000.\<close>

definition pool2 :: "node list" where
  "pool2 = [mk_node 0 8000 0 False, mk_node 1 8000 0 False]"

text \<open>The largest raw draw: \<^verbatim>\<open>random.random()\<close> is then \<open>1 - 2^-53\<close>.\<close>

definition draw_high :: nat where
  "draw_high = 9007199254740991"

text \<open>
  A Lion object of two nodes of capacity 8000 and five tasks, the raw draws that produce
  it, and its state during a run: the loads of the two nodes, the territory, the nomad
  list and the counter.  \<open>lion_fields\<close> are the fields \<^verbatim>\<open>__init__\<close> gives a pool of two nodes;
  \<open>lion2_territory\<close> is the territory after the first task was placed on the first
  node.
\<close>

definition lion_fields :: lion where
  "lion_fields =
     \<lparr>pride_size = 5, territories = [new_territory [0, 1]], nomads = [],
      migration_threshold = 4 / 5\<rparr>"

definition lion2_tasks :: "task list" where
  "lion2_tasks = [mk_task 0 3000, mk_task 1 3900, mk_task 2 4000, mk_task 3 4000,
                  mk_task 4 4000]"


definition lion2_object :: algo where
  "lion2_object = mk_algo pool2 lion2_tasks (Lion lion_fields)"


definition lion2_state :: "rat \<Rightarrow> rat \<Rightarrow> territory \<Rightarrow> nat list \<Rightarrow> int \<Rightarrow> algo" where
  "lion2_state a b terr nms c =
     lion2_object
       \<lparr>nodes := [mk_node 0 8000 a False, mk_node 1 8000 b False],
        variant := Lion (lion_fields\<lparr>territories := [terr], nomads := nms\<rparr>),
        completed_tasks := c\<rparr>"

text \<open>Four nodes, the first of which carries load.\<close>

definition pool4 :: "node list" where
  "pool4 = [mk_node 0 8000 500 False, mk_node 1 8000 0 False, mk_node 2 8000 0 False,
            mk_node 3 8000 0 False]"

text \<open>Two nodes, the second half full.\<close>

definition pool_half :: "node list" where
  "pool_half = [mk_node 0 8000 0 False, mk_node 1 8000 4000 False]"

text \<open>Six empty nodes of capacity 8000: the pool the constructor draws from a stream of zeros.\<close>

definition pool6 :: "node list" where
  "pool6 = [mk_node 0 8000 0 False, mk_node 1 8000 0 False, mk_node 2 8000 0 False,
            mk_node 3 8000 0 False, mk_node 4 8000 0 False, mk_node 5 8000 0 False]"

text \<open>
  The pool and the task stream of a Bat object of four nodes and three tasks, and the raw
  draws that produce them and then steer the run: twelve draws for the nodes, nine for the
  tasks, six for the run (every later draw is zero).
\<close>

definition run_pool :: "node list" where
  "run_pool = [mk_node 0 12000 0 False, mk_node 1 8000 0 False, mk_node 2 8000 0 False,
               mk_node 3 8000 0 False]"

definition run_tasks :: "task list" where
  "run_tasks = [mk_task 0 4000, mk_task 1 4000, mk_task 2 4000]"

definition run_draws :: "nat list" where
  "run_draws = [0, 1000, 0, 0, 0, 0, 0, 0, 0, 0, 0, 0,
                3800, 3800, 0, 3800, 3800, 0, 3800, 3800, 0,
                0, draw_high, draw_high, 0, draw_high, draw_high]"

text \<open>The state of that object during the run: its pool and its counter.\<close>

definition run_state :: "node list \<Rightarrow> int \<Rightarrow> algo" where
  "run_state ns c = (mk_algo run_pool run_tasks (Bat bat_fields))\<lparr>nodes := ns, completed_tasks := c\<rparr>"

text \<open>
  A Crow object of four nodes and one task, drawn from zeros but for the task's demand,
  and its pool after the failure of the first node.
\<close>

definition crow4_pool :: "node list" where
  "crow4_pool = [mk_node 0 8000 0 False, mk_node 1 8000 0 False, mk_node 2 8000 0 False,
                 mk_node 3 8000 0 False]"

definition crow4_failed :: "node list" where
  "crow4_failed = [mk_node 0 8000 0 True, mk_node 1 8000 0 False, mk_node 2 8000 0 False,
                   mk_node 3 8000 0 False]"

definition crow4_fields :: crow where
  "crow4_fields = \<lparr>memory = [None, None, None, None], flight_length = 1 / 10\<rparr>"

definition crow4_draws :: "nat list" where
  "crow4_draws = [0, 0, 0, 0, 0, 0, 0, 0, 0, 0, 0, 0, 3800, 3800, 0]"

text \<open>The state of that object during a run: its pool, its memory and its counter.\<close>

definition crow4_state :: "node list \<Rightarrow> memory_slot option list \<Rightarrow> int \<Rightarrow> algo" where
  "crow4_state ns mem c =
     (mk_algo crow4_pool [mk_task 0 4000] (Crow crow4_fields))
       \<lparr>nodes := ns, variant := Crow (crow4_fields\<lparr>memory := mem\<rparr>), completed_tasks := c\<rparr>"

definition crow4_memory :: "memory_slot option list" where
  "crow4_memory = [Some \<lparr>mem_node = 0, mem_load = 0\<rparr>, Some \<lparr>mem_node = 1, mem_load = 0\<rparr>,
                   Some \<lparr>mem_node = 2, mem_load = 0\<rparr>, Some \<lparr>mem_node = 3, mem_load = 0\<rparr>]"

text \<open>
  A Crow object of one node of capacity 8000 and three tasks of 4000, and its state
  during a run: the load of the node, the load its memory slot remembers, the counter.
\<close>

definition crow1_draws :: "nat list" where
  "crow1_draws = [0, 0, 0, 3800, 3800, 0, 3800, 3800, 0, 3800, 3800, 0]"

definition crow1_fields :: crow where
  "crow1_fields = \<lparr>memory = [None], flight_length = 1 / 10\<rparr>"

definition crow1_object :: algo where
  "crow1_object = mk_algo [mk_node 0 8000 0 False] run_tasks (Crow crow1_fields)"

definition crow1_state :: "rat \<Rightarrow> rat \<Rightarrow> int \<Rightarrow> algo" where
  "crow1_state load remembered c =
     crow1_object
       \<lparr>nodes := [mk_node 0 8000 load False],
        variant := Crow (crow1_fields\<lparr>memory := [Some \<lparr>mem_node = 0, mem_load = remembered\<rparr>]\<rparr>),
        completed_tasks := c\<rparr>"

subsection \<open>Primitives\<close>

lemma min_loop_mem: "min_loop lt key best kb xs = Inr m \<Longrightarrow> m = best \<or> m \<in> set xs"
  by (induction xs arbitrary: best kb) (auto split: sum.splits if_splits)

lemma py_min_mem: "py_min lt key xs = Inr m \<Longrightarrow> m \<in> set xs"
  by (auto simp: py_min_def split: list.splits sum.splits dest: min_loop_mem)

lemma min_loop_ok:
  "\<forall>x\<in>set xs. \<exists>k. key x = Inr k \<Longrightarrow> \<exists>m. min_loop lt key best kb xs = Inr m"
  by (induction xs arbitrary: best kb) auto

lemma py_min_ok:
  "xs \<noteq> [] \<Longrightarrow> \<forall>x\<in>set xs. \<exists>k. key x = Inr k \<Longrightarrow> \<exists>m. py_min lt key xs = Inr m"
  by (cases xs) (auto simp: py_min_def intro: min_loop_ok)

lemma max_loop_ok:
  "\<forall>x\<in>set xs. \<exists>k. key x = Inr k \<Longrightarrow> \<exists>m. max_loop lt key best kb xs = Inr m"
  by (induction xs arbitrary: best kb) auto

lemma py_max_ok:
  "xs \<noteq> [] \<Longrightarrow> \<forall>x\<in>set xs. \<exists>k. key x = Inr k \<Longrightarrow> \<exists>m. py_max lt key xs = Inr m"
  by (cases xs) (auto simp: py_max_def intro: max_loop_ok)

lemma min_loop_least:
  fixes kb :: "'k::linorder"
  shows "min_loop (<) key best kb xs = Inr m \<Longrightarrow> key best = Inr kb \<Longrightarrow>
    \<exists>km. key m = Inr km \<and> km \<le> kb \<and> (\<forall>x\<in>set xs. \<exists>kx. key x = Inr kx \<and> km \<le> kx)"
proof (induction xs arbitrary: best kb)
  case Nil
  then show ?case by simp
next
  case (Cons x xs)
  from Cons.prems(1) obtain kx where kx: "key x = Inr kx"
    by (auto split: sum.splits)
  show ?case
  proof (cases "kx < kb")
    case True
    with Cons.prems kx have "min_loop (<) key x kx xs = Inr m" by simp
    from Cons.IH[OF this kx] True kx show ?thesis by fastforce
  next
    case False
    with Cons.prems kx have "min_loop (<) key best kb xs = Inr m" by simp
    from Cons.IH[OF this Cons.prems(2)] False kx show ?thesis by fastforce
  qed
qed

lemma py_min_least:
  fixes key :: "'a \<Rightarrow> error + 'k::linorder"
  assumes "py_min (<) key xs = Inr m"
  shows "\<exists>km. key m = Inr km \<and> (\<forall>x\<in>set xs. \<exists>kx. key x = Inr kx \<and> km \<le> kx)"
proof (cases xs)
  case Nil
  with assms show ?thesis by (simp add: py_min_def)
next
  case (Cons x rest)
  with assms obtain k where k: "key x = Inr k" and ml: "min_loop (<) key x k rest = Inr m"
    by (auto simp: py_min_def split: sum.splits)
  from min_loop_least[OF ml k] Cons k show ?thesis by fastforce
qed

lemma random_choice_ok: "xs \<noteq> [] \<Longrightarrow> \<exists>x. x \<in> set xs \<and> random_choice xs g = Inr (x, stl g)"
  by (simp add: random_choice_def)


lemma sample_loop_props:
  "k \<le> length pool \<Longrightarrow> sample_loop k pool g = (hs, g') \<Longrightarrow> length hs = k \<and> set hs \<subseteq> set pool"
proof (induction k arbitrary: pool g hs g')
  case 0
  then show ?case by simp
next
  case (Suc k)
  let ?j = "shd g mod length pool"
  let ?pool' = "take ?j pool @ drop (Suc ?j) pool"
  from Suc.prems(1) have pos: "0 < length pool" by (cases pool) auto
  then have j: "?j < length pool" by simp
  obtain rest g1 where r: "sample_loop k ?pool' (stl g) = (rest, g1)" by force
  from j Suc.prems(1) have len: "k \<le> length ?pool'" by simp
  from Suc.IH[OF len r] have ih: "length rest = k" "set rest \<subseteq> set ?pool'" by simp_all
  have sub: "set ?pool' \<subseteq> set pool"
    by (auto dest: in_set_takeD in_set_dropD)
  from Suc.prems(2) r have hs: "hs = pool ! ?j # rest" by (simp add: Let_def)
  with ih sub j show ?case by auto
qed

subsection \<open>Pool updates\<close>

lemma length_add_load [simp]: "length (add_load ns i x) = length ns"
  by (simp add: add_load_def)

lemma length_sub_load [simp]: "length (sub_load ns i x) = length ns"
  by (simp add: sub_load_def)

lemma map_add_load:
  "(\<And>n x. f (n\<lparr>current_load := x\<rparr>) = f n) \<Longrightarrow> map f (add_load ns i y) = map f ns"
  by (cases "i < length ns") (simp_all add: add_load_def map_update list_update_same_conv list_update_beyond)

lemma map_sub_load:
  "(\<And>n x. f (n\<lparr>current_load := x\<rparr>) = f n) \<Longrightarrow> map f (sub_load ns i y) = map f ns"
  by (cases "i < length ns") (simp_all add: sub_load_def map_update list_update_same_conv list_update_beyond)

lemma failed_add_load [simp]: "map failed (add_load ns i x) = map failed ns"
  by (rule map_add_load) simp

lemma failed_sub_load [simp]: "map failed (sub_load ns i x) = map failed ns"
  by (rule map_sub_load) simp

lemma active_nodes_iff: "i \<in> set (active_nodes ns) \<longleftrightarrow> i < length ns \<and> is_active (ns ! i)"
  by (auto simp: active_nodes_def)

lemma utilization_active:
  "i \<in> set (active_nodes ns) \<Longrightarrow> utilization ns i = Inr (current_load (ns ! i) / capacity (ns ! i))"
  by (auto simp: active_nodes_iff is_active_def utilization_def py_div_def)

subsection \<open>Bat and Monarch\<close>

lemma bat_allocate_result:
  "\<exists>g'. bat_allocate s b t g = Return (False, s, g') \<or>
     (\<exists>i. i \<in> set (active_nodes (nodes s)) \<and> fits (nodes s) i t \<and>
        bat_allocate s b t g = Return (True, s\<lparr>nodes := add_load (nodes s) i (mips_required t)\<rparr>, g'))"
proof (cases "active_nodes (nodes s) = []")
  case True
  then show ?thesis by (simp add: bat_allocate_def)
next
  case False
  from py_min_ok[OF False, of "utilization (nodes s)" "(<)"] utilization_active
  obtain best where best: "py_min (<) (utilization (nodes s)) (active_nodes (nodes s)) = Inr best"
    by blast
  then have bm: "best \<in> set (active_nodes (nodes s))" by (rule py_min_mem)
  from random_choice_ok[OF False] obtain c where
    c: "c \<in> set (active_nodes (nodes s))"
       "random_choice (active_nodes (nodes s)) (snd (random_random g)) = Inr (c, stl (snd (random_random g)))"
    by blast
  show ?thesis
    using False best bm c
    by (auto simp: bat_allocate_def Let_def split: prod.splits)
qed

lemma monarch_allocate_result:
  assumes "bar m + 1 \<noteq> 0"
  shows "\<exists>g'. monarch_allocate s m t g = Return (False, s, g') \<or>
     (\<exists>i. i \<in> set (active_nodes (nodes s)) \<and> fits (nodes s) i t \<and>
        monarch_allocate s m t g = Return (True, s\<lparr>nodes := add_load (nodes s) i (mips_required t)\<rparr>, g'))"
proof (cases "active_nodes (nodes s) = []")
  case True
  then show ?thesis by (simp add: monarch_allocate_def)
next
  case False
  from py_min_ok[OF False, of "utilization (nodes s)" "(<)"] utilization_active
  obtain dst where dst: "py_min (<) (utilization (nodes s)) (active_nodes (nodes s)) = Inr dst"
    by blast
  then have dm: "dst \<in> set (active_nodes (nodes s))" by (rule py_min_mem)
  from py_max_ok[OF False, of "utilization (nodes s)" "(<)"] utilization_active
  obtain src where src: "py_max (<) (utilization (nodes s)) (active_nodes (nodes s)) = Inr src"
    by blast
  from random_choice_ok[OF False] obtain c where
    c: "c \<in> set (active_nodes (nodes s))"
       "random_choice (active_nodes (nodes s)) (snd (random_random g)) = Inr (c, stl (snd (random_random g)))"
    by blast
  show ?thesis
    using False dst dm src c assms
    by (auto simp: monarch_allocate_def Let_def py_div_def split: prod.splits)
qed

lemma monarch_allocate_raise:
  "monarch_allocate s m t g = Raise e s' \<Longrightarrow> s' = s"
  by (auto simp: monarch_allocate_def Let_def split: prod.splits sum.splits if_splits)

subsection \<open>Crow\<close>

lemma refresh_memory_shape:
  "refresh_memory ns active idxs mem = r \<Longrightarrow>
     (\<exists>mem'. (r = Inr mem' \<or> r = Inl (IndexError, mem')) \<and> length mem' = length mem \<and>
        map (map_option mem_node) mem' = map (map_option mem_node) mem)"
proof (induction idxs arbitrary: mem r)
  case Nil
  then show ?case by auto
next
  case (Cons i rest)
  show ?case
  proof (cases "ns ! i \<in> set (map (\<lambda>j. ns ! j) active) \<and> i < length mem \<and> mem ! i \<noteq> None")
    case True
    then obtain slot where slot: "mem ! i = Some slot" by auto
    let ?mem1 = "mem[i := Some (slot\<lparr>mem_load := current_load (ns ! i)\<rparr>)]"
    from True slot Cons.prems have "refresh_memory ns active rest ?mem1 = r" by simp
    from Cons.IH[OF this] obtain mem' where
      m: "r = Inr mem' \<or> r = Inl (IndexError, mem')" "length mem' = length ?mem1"
         "map (map_option mem_node) mem' = map (map_option mem_node) ?mem1" by blast
    have "map (map_option mem_node) ?mem1 = map (map_option mem_node) mem"
      using True slot by (simp add: map_update list_update_same_conv)
    with m show ?thesis by auto
  next
    case False
    then consider
      (inactive) "ns ! i \<notin> set (map (\<lambda>j. ns ! j) active)"
      | (short) "ns ! i \<in> set (map (\<lambda>j. ns ! j) active)" "\<not> i < length mem"
      | (empty) "ns ! i \<in> set (map (\<lambda>j. ns ! j) active)" "i < length mem" "mem ! i = None"
      by auto
    then show ?thesis
    proof cases
      case inactive
      with Cons.prems have "refresh_memory ns active rest mem = r" by simp
      from Cons.IH[OF this] show ?thesis .
    next
      case short
      with Cons.prems have "r = Inl (IndexError, mem)" by simp
      then show ?thesis by auto
    next
      case empty
      with Cons.prems have "refresh_memory ns active rest mem = r" by simp
      from Cons.IH[OF this] show ?thesis .
    qed
  qed
qed

lemma refresh_memory_ok:
  "\<forall>i\<in>set idxs. i < length mem \<Longrightarrow> \<exists>mem'. refresh_memory ns active idxs mem = Inr mem'"
proof (induction idxs arbitrary: mem)
  case Nil
  then show ?case by simp
next
  case (Cons i rest)
  then show ?case by (cases "mem ! i") auto
qed

lemma valid_memories_iff:
  "slot \<in> set (valid_memories ns mem) \<longleftrightarrow> Some slot \<in> set mem \<and> is_active (ns ! mem_node slot)"
  by (auto simp: valid_memories_def split: option.splits if_splits)

lemma valid_memories_key:
  "slot \<in> set (valid_memories ns mem) \<Longrightarrow>
     \<exists>k. py_div (mem_load slot) (capacity (ns ! mem_node slot)) = Inr k"
  by (auto simp: valid_memories_iff is_active_def py_div_def)

lemma crow_allocate_result:
  "crow_allocate s c t g = Return (False, s, g) \<or>
   (\<exists>mem. (map (map_option mem_node) mem = map (map_option mem_node) (memory c) \<or>
            map (map_option mem_node) mem = map Some (active_nodes (nodes s))) \<and>
     ((length mem \<le> length (nodes s) \<and>
        crow_allocate s c t g = Raise IndexError (s\<lparr>variant := Crow (c\<lparr>memory := mem\<rparr>)\<rparr>)) \<or>
      crow_allocate s c t g = Return (False, s\<lparr>variant := Crow (c\<lparr>memory := mem\<rparr>)\<rparr>, g) \<or>
      (\<exists>slot. Some slot \<in> set mem \<and> is_active (nodes s ! mem_node slot) \<and>
         fits (nodes s) (mem_node slot) t \<and>
         crow_allocate s c t g =
           Return (True, s\<lparr>variant := Crow (c\<lparr>memory := mem\<rparr>),
                            nodes := add_load (nodes s) (mem_node slot) (mips_required t)\<rparr>, g))))"
proof (cases "active_nodes (nodes s) = []")
  case True
  then show ?thesis by (simp add: crow_allocate_def)
next
  case False
  let ?ns = "nodes s"
  define mem0 where "mem0 = (if \<not> list_ex (\<lambda>m. m \<noteq> None) (memory c)
      then map (\<lambda>n. Some \<lparr>mem_node = n, mem_load = current_load (?ns ! n)\<rparr>) (active_nodes ?ns)
      else memory c)"
  define r where "r = refresh_memory ?ns (active_nodes ?ns) [0..<length ?ns] mem0"
  have unfold: "crow_allocate s c t g =
      (case r of
         Inl (e, mem) \<Rightarrow> Raise e (s\<lparr>variant := Crow (c\<lparr>memory := mem\<rparr>)\<rparr>)
       | Inr mem \<Rightarrow>
           (let s1 = s\<lparr>variant := Crow (c\<lparr>memory := mem\<rparr>)\<rparr>; valid = valid_memories ?ns mem
            in if valid = [] then Return (False, s1, g)
               else case py_min (<) (\<lambda>m. py_div (mem_load m) (capacity (?ns ! mem_node m))) valid of
                      Inl e \<Rightarrow> Raise e s1
                    | Inr best_memory \<Rightarrow>
                        if fits ?ns (mem_node best_memory) t
                        then Return (True, s1\<lparr>nodes := add_load ?ns (mem_node best_memory) (mips_required t)\<rparr>, g)
                        else Return (False, s1, g)))"
    using False by (simp add: crow_allocate_def Let_def mem0_def r_def)
  have sh0: "map (map_option mem_node) mem0 = map (map_option mem_node) (memory c) \<or>
             map (map_option mem_node) mem0 = map Some (active_nodes ?ns)"
    by (simp add: mem0_def comp_def)
  from refresh_memory_shape[OF r_def[symmetric]] obtain mem where
    mem: "r = Inr mem \<or> r = Inl (IndexError, mem)" "length mem = length mem0"
      "map (map_option mem_node) mem = map (map_option mem_node) mem0" by blast
  from sh0 mem(3) have sh:
    "map (map_option mem_node) mem = map (map_option mem_node) (memory c) \<or>
     map (map_option mem_node) mem = map Some (active_nodes ?ns)" by simp
  show ?thesis
  proof (cases "r = Inr mem")
    case ok: True
    show ?thesis
    proof (cases "valid_memories ?ns mem = []")
      case True
      with unfold ok have
        "crow_allocate s c t g = Return (False, s\<lparr>variant := Crow (c\<lparr>memory := mem\<rparr>)\<rparr>, g)"
        by (simp add: Let_def)
      with sh show ?thesis by blast
    next
      case nonempty: False
      from py_min_ok[OF nonempty, of "\<lambda>m. py_div (mem_load m) (capacity (?ns ! mem_node m))" "(<)"]
        valid_memories_key[of _ ?ns mem]
      obtain best where
        best: "py_min (<) (\<lambda>m. py_div (mem_load m) (capacity (?ns ! mem_node m))) (valid_memories ?ns mem) = Inr best"
        by blast
      from py_min_mem[OF best] have bm: "Some best \<in> set mem" "is_active (?ns ! mem_node best)"
        by (simp_all add: valid_memories_iff)
      show ?thesis
      proof (cases "fits ?ns (mem_node best) t")
        case True
        with unfold ok nonempty best have
          "crow_allocate s c t g =
             Return (True, s\<lparr>variant := Crow (c\<lparr>memory := mem\<rparr>),
                              nodes := add_load ?ns (mem_node best) (mips_required t)\<rparr>, g)"
          by (simp add: Let_def)
        with True bm sh show ?thesis by blast
      next
        case False
        with unfold ok nonempty best have
          "crow_allocate s c t g = Return (False, s\<lparr>variant := Crow (c\<lparr>memory := mem\<rparr>)\<rparr>, g)"
          by (simp add: Let_def)
        with sh show ?thesis by blast
      qed
    qed
  next
    case False
    with mem have bad: "r = Inl (IndexError, mem)" by simp
    have "\<not> (\<forall>i\<in>set [0..<length ?ns]. i < length mem0)"
      using refresh_memory_ok[of "[0..<length ?ns]" mem0 ?ns "active_nodes ?ns"] bad r_def by auto
    then have "length mem \<le> length ?ns" using mem(2) by auto
    moreover from unfold bad have
      "crow_allocate s c t g = Raise IndexError (s\<lparr>variant := Crow (c\<lparr>memory := mem\<rparr>)\<rparr>)"
      by simp
    ultimately show ?thesis using sh by blast
  qed
qed

subsection \<open>Lion\<close>

lemma fitness_min_ok:
  "xs \<noteq> [] \<Longrightarrow> \<exists>m. m \<in> set xs \<and> py_min xless (fitness_key ns) xs = Inr m"
  using py_min_ok[of xs "fitness_key ns" xless] py_min_mem[of xless "fitness_key ns" xs]
  by (auto simp: fitness_key_def)

lemma hunters_ok:
  assumes "2 \<le> length active"
  shows "\<exists>hunters g'. random_sample active (max 2 (min (length active div 2) (length active))) g
           = Inr (hunters, g') \<and> hunters \<noteq> [] \<and> set hunters \<subseteq> set active"
proof -
  let ?k = "max 2 (min (length active div 2) (length active))"
  from assms have k: "?k \<le> length active" "2 \<le> ?k" by auto
  obtain hs g' where s: "sample_loop ?k active g = (hs, g')" by force
  from sample_loop_props[OF k(1) s] k(2) have "length hs = ?k" "set hs \<subseteq> set active" by auto
  with k(2) have "hs \<noteq> []" by auto
  with s k(1) \<open>set hs \<subseteq> set active\<close> show ?thesis
    by (auto simp: random_sample_def)
qed

lemma hunting_loop_result:
  "hunting_loop ns t visited ts g = r \<Longrightarrow>
     (\<exists>g'. r = Inr (None, g')) \<or>
     (\<exists>g' i ts'. r = Inr (Some (add_load ns i (mips_required t), visited @ ts'), g') \<and>
        fits ns i t \<and> is_active (ns ! i) \<and> (\<exists>terr\<in>set ts. i \<in> set (t_nodes terr)) \<and>
        map t_nodes ts' = map t_nodes ts)"
proof (induction ts arbitrary: visited g r)
  case Nil
  then show ?case by auto
next
  case (Cons terr rest)
  let ?active = "filter (\<lambda>i. is_active (ns ! i)) (t_nodes terr)"
  have step: "\<And>g0. hunting_loop ns t (visited @ [terr]) rest g0 = r \<Longrightarrow> ?case"
  proof -
    fix g0 assume "hunting_loop ns t (visited @ [terr]) rest g0 = r"
    from Cons.IH[OF this] show ?case
    proof (elim disjE exE conjE)
      fix g' assume "r = Inr (None, g')"
      then show ?thesis by blast
    next
      fix g' i ts'
      assume a: "r = Inr (Some (add_load ns i (mips_required t), (visited @ [terr]) @ ts'), g')"
        "fits ns i t" "is_active (ns ! i)" "\<exists>terr\<in>set rest. i \<in> set (t_nodes terr)"
        "map t_nodes ts' = map t_nodes rest"
      then have "r = Inr (Some (add_load ns i (mips_required t), visited @ (terr # ts')), g')"
        "map t_nodes (terr # ts') = map t_nodes (terr # rest)"
        "\<exists>x\<in>set (terr # rest). i \<in> set (t_nodes x)" by auto
      with a(2,3) show ?thesis by blast
    qed
  qed
  show ?case
  proof (cases "length ?active < 2")
    case True
    with Cons.prems have "hunting_loop ns t (visited @ [terr]) rest g = r" by simp
    then show ?thesis by (rule step)
  next
    case enough: False
    obtain u g1 where u: "random_random g = (u, g1)" by force
    show ?thesis
    proof (cases "u < 7 / 10")
      case False
      with Cons.prems enough u have "hunting_loop ns t (visited @ [terr]) rest g1 = r"
        by (simp add: Let_def)
      then show ?thesis by (rule step)
    next
      case True
      from enough have "2 \<le> length ?active" by simp
      from hunters_ok[OF this, of g1] obtain hunters g2 where
        h: "random_sample ?active (max 2 (min (length ?active div 2) (length ?active))) g1
              = Inr (hunters, g2)" "hunters \<noteq> []" "set hunters \<subseteq> set ?active"
        by blast
      from fitness_min_ok[OF h(2), of ns] obtain best where
        best: "best \<in> set hunters" "py_min xless (fitness_key ns) hunters = Inr best" by blast
      with h(3) have bact: "best \<in> set (t_nodes terr)" "is_active (ns ! best)" by auto
      show ?thesis
      proof (cases "fits ns best t")
        case False
        with Cons.prems enough u True h(1) best(2)
        have "hunting_loop ns t (visited @ [terr]) rest g2 = r"
          by (simp add: Let_def)
        then show ?thesis by (rule step)
      next
        case fit: True
        define terr' where "terr' =
          (if xless (calculate_fitness (add_load ns best (mips_required t) ! best)) (best_fitness terr)
           then terr\<lparr>best_fitness := calculate_fitness (add_load ns best (mips_required t) ! best),
                     best_node := Some best\<rparr>
           else terr)"
        have tn: "t_nodes terr' = t_nodes terr" by (simp add: terr'_def)
        from Cons.prems enough u True h(1) best(2) fit
        have "r = Inr (Some (add_load ns best (mips_required t), visited @ terr' # rest), g2)"
          by (simp add: Let_def terr'_def)
        moreover have "map t_nodes (terr' # rest) = map t_nodes (terr # rest)" using tn by simp
        moreover have "\<exists>x\<in>set (terr # rest). best \<in> set (t_nodes x)" using bact by simp
        ultimately show ?thesis using fit bact(2) by blast
      qed
    qed
  qed
qed

lemma nomad_loop_result:
  "nomad_loop ns thr t nms = r \<Longrightarrow>
     r = Inr None \<or>
     (\<exists>nm i amt. nm \<in> set nms \<and> i \<in> set (active_nodes ns) \<and> ns ! i \<noteq> ns ! nm \<and>
        0 < amt \<and> amt \<le> mips_required t \<and>
        amt \<le> capacity (ns ! i) - current_load (ns ! i) \<and>
        amt \<le> current_load (ns ! nm) * (3 / 10) \<and>
        r = Inr (Some (add_load (sub_load ns nm amt) i amt)))"
proof (induction nms arbitrary: r)
  case Nil
  then show ?case by simp
next
  case (Cons nomad rest)
  let ?active = "filter (\<lambda>i. is_active (ns ! i) \<and> ns ! i \<noteq> ns ! nomad) [0..<length ns]"
  have step: "nomad_loop ns thr t rest = r \<Longrightarrow> ?case"
  proof -
    assume "nomad_loop ns thr t rest = r"
    from Cons.IH[OF this] show ?case by auto
  qed
  show ?case
  proof (cases "capacity (ns ! nomad) * thr < current_load (ns ! nomad) \<and> ?active \<noteq> []")
    case False
    with Cons.prems have "nomad_loop ns thr t rest = r" by (auto simp: Let_def)
    then show ?thesis by (rule step)
  next
    case True
    then have ne: "?active \<noteq> []" by simp
    from fitness_min_ok[OF ne, of ns] obtain recipient where
      rec: "recipient \<in> set ?active" "py_min xless (fitness_key ns) ?active = Inr recipient"
      by blast
    define migratable where "migratable =
      min (current_load (ns ! nomad) * (3 / 10))
        (min (mips_required t) (capacity (ns ! recipient) - current_load (ns ! recipient)))"
    have eq: "nomad_loop ns thr t (nomad # rest) =
        (if 0 < migratable
         then Inr (Some (add_load (sub_load ns nomad migratable) recipient migratable))
         else nomad_loop ns thr t rest)"
      using True rec(2) unfolding migratable_def by (simp add: Let_def)
    show ?thesis
    proof (cases "0 < migratable")
      case False
      with Cons.prems eq have "nomad_loop ns thr t rest = r" by metis
      then show ?thesis by (rule step)
    next
      case pos: True
      with Cons.prems eq
      have "r = Inr (Some (add_load (sub_load ns nomad migratable) recipient migratable))"
        by metis
      moreover from rec(1) have "recipient \<in> set (active_nodes ns)" "ns ! recipient \<noteq> ns ! nomad"
        by (auto simp: active_nodes_def)
      moreover have "migratable \<le> mips_required t"
        "migratable \<le> capacity (ns ! recipient) - current_load (ns ! recipient)"
        "migratable \<le> current_load (ns ! nomad) * (3 / 10)"
        unfolding migratable_def by linarith+
      ultimately show ?thesis using pos by (intro disjI2 exI[of _ nomad] exI[of _ recipient] exI[of _ migratable]) simp
    qed
  qed
qed

lemma set_insort_desc [simp]: "set (insort_desc lt key x ys) = insert x (set ys)"
  by (induction ys) auto

lemma set_sorted_reverse [simp]: "set (sorted_reverse lt key xs) = set xs"
  by (induction xs) (simp_all add: sorted_reverse_def)

lemma nomad_scan_result:
  "nomad_scan s l t = Return (False, s) \<or>
   (\<exists>nm i amt. nm \<in> set (nomads l) \<and> i \<in> set (active_nodes (nodes s)) \<and>
      nodes s ! i \<noteq> nodes s ! nm \<and> 0 < amt \<and> amt \<le> mips_required t \<and>
      amt \<le> capacity (nodes s ! i) - current_load (nodes s ! i) \<and>
      amt \<le> current_load (nodes s ! nm) * (3 / 10) \<and>
      nomad_scan s l t = Return (True, s\<lparr>nodes := add_load (sub_load (nodes s) nm amt) i amt\<rparr>))"
  using nomad_loop_result[OF refl, of "nodes s" "migration_threshold l" t "nomads l"]
  by (fastforce simp: nomad_scan_def)

lemma nomad_phase_result:
  assumes "variant s = Lion l"
  shows "\<exists>nms. set nms \<subseteq> set (nomads l) \<union> set (active_nodes (nodes s)) \<and>
    (nomad_phase s l t = Return (False, s\<lparr>variant := Lion (l\<lparr>nomads := nms\<rparr>)\<rparr>) \<or>
     (\<exists>nm i amt. i \<in> set (active_nodes (nodes s)) \<and>
        nodes s ! i \<noteq> nodes s ! nm \<and> 0 < amt \<and> amt \<le> mips_required t \<and>
        amt \<le> capacity (nodes s ! i) - current_load (nodes s ! i) \<and>
        amt \<le> current_load (nodes s ! nm) * (3 / 10) \<and>
        nomad_phase s l t =
          Return (True, s\<lparr>variant := Lion (l\<lparr>nomads := nms\<rparr>),
                           nodes := add_load (sub_load (nodes s) nm amt) i amt\<rparr>) \<and>
        nm \<in> set nms))"
proof -
  have same: "s\<lparr>variant := Lion (l\<lparr>nomads := nomads l\<rparr>)\<rparr> = s" using assms by simp
  show ?thesis
  proof (cases "nomads l = []")
    case False
    then have np: "nomad_phase s l t = nomad_scan s l t" by (simp add: nomad_phase_def)
    from nomad_scan_result[of s l t] show ?thesis
    proof (elim disjE exE conjE)
      assume "nomad_scan s l t = Return (False, s)"
      with np same have
        "nomad_phase s l t = Return (False, s\<lparr>variant := Lion (l\<lparr>nomads := nomads l\<rparr>)\<rparr>)" by simp
      then show ?thesis by (intro exI[of _ "nomads l"]) simp
    next
      fix nm i amt
      assume a: "i \<in> set (active_nodes (nodes s))" "nodes s ! i \<noteq> nodes s ! nm" "0 < amt"
        "amt \<le> mips_required t" "amt \<le> capacity (nodes s ! i) - current_load (nodes s ! i)"
        "amt \<le> current_load (nodes s ! nm) * (3 / 10)"
        "nomad_scan s l t = Return (True, s\<lparr>nodes := add_load (sub_load (nodes s) nm amt) i amt\<rparr>)"
        "nm \<in> set (nomads l)"
      from a(7) np same have
        "nomad_phase s l t = Return (True, s\<lparr>variant := Lion (l\<lparr>nomads := nomads l\<rparr>),
            nodes := add_load (sub_load (nodes s) nm amt) i amt\<rparr>)"
        by (metis (no_types, lifting) algo.update_convs(3) algo.surjective algo.update_convs(8) same)
      with a(1-6,8) show ?thesis by (intro exI[of _ "nomads l"]) blast
    qed
  next
    case True
    show ?thesis
    proof (cases "active_nodes (nodes s) = []")
      case none: True
      with True have "nomad_phase s l t = Return (False, s)" by (simp add: nomad_phase_def)
      with same show ?thesis by (intro exI[of _ "nomads l"]) simp
    next
      case some: False
      define nms where "nms = take (max 2 (num_nodes s div 10))
        (sorted_reverse xless (\<lambda>i. calculate_fitness (nodes s ! i)) (active_nodes (nodes s)))"
      define s1 where "s1 = s\<lparr>variant := Lion (l\<lparr>nomads := nms\<rparr>)\<rparr>"
      have sub: "set nms \<subseteq> set (nomads l) \<union> set (active_nodes (nodes s))"
        unfolding nms_def using set_take_subset[of _ "sorted_reverse xless (\<lambda>i. calculate_fitness (nodes s ! i)) (active_nodes (nodes s))"]
        by auto
      have np: "nomad_phase s l t = nomad_scan s1 (l\<lparr>nomads := nms\<rparr>) t"
        using True some by (simp add: nomad_phase_def Let_def nms_def s1_def)
      have ns1: "nodes s1 = nodes s" by (simp add: s1_def)
      from nomad_scan_result[of s1 "l\<lparr>nomads := nms\<rparr>" t] show ?thesis
      proof (elim disjE exE conjE)
        assume "nomad_scan s1 (l\<lparr>nomads := nms\<rparr>) t = Return (False, s1)"
        with np have "nomad_phase s l t = Return (False, s\<lparr>variant := Lion (l\<lparr>nomads := nms\<rparr>)\<rparr>)"
          by (simp add: s1_def)
        with sub show ?thesis by blast
      next
        fix nm i amt
        assume a: "i \<in> set (active_nodes (nodes s1))" "nodes s1 ! i \<noteq> nodes s1 ! nm" "0 < amt"
          "amt \<le> mips_required t" "amt \<le> capacity (nodes s1 ! i) - current_load (nodes s1 ! i)"
          "amt \<le> current_load (nodes s1 ! nm) * (3 / 10)"
          "nomad_scan s1 (l\<lparr>nomads := nms\<rparr>) t =
             Return (True, s1\<lparr>nodes := add_load (sub_load (nodes s1) nm amt) i amt\<rparr>)"
          "nm \<in> set (nomads (l\<lparr>nomads := nms\<rparr>))"
        from a(8) have nm: "nm \<in> set nms" by simp
        from a(7) np have
          "nomad_phase s l t = Return (True, s\<lparr>variant := Lion (l\<lparr>nomads := nms\<rparr>),
              nodes := add_load (sub_load (nodes s) nm amt) i amt\<rparr>)"
          by (simp add: s1_def)
        with a(1-6) sub nm show ?thesis unfolding ns1 by blast
      qed
    qed
  qed
qed

lemma lion_allocate_result:
  assumes v: "variant s = Lion l"
  shows "\<exists>ts' nms g'.
    map t_nodes ts' = map t_nodes (territories l) \<and>
    set nms \<subseteq> set (nomads l) \<union> set (active_nodes (nodes s)) \<and>
    ((ts' = territories l \<and>
      lion_allocate s l t g = Return (False, s\<lparr>variant := Lion (l\<lparr>territories := ts', nomads := nms\<rparr>)\<rparr>, g')) \<or>
     (\<exists>i. is_active (nodes s ! i) \<and> fits (nodes s) i t \<and>
        (i < length (nodes s) \<or> (\<exists>terr\<in>set (territories l). i \<in> set (t_nodes terr))) \<and>
        lion_allocate s l t g =
          Return (True, s\<lparr>variant := Lion (l\<lparr>territories := ts', nomads := nms\<rparr>),
                           nodes := add_load (nodes s) i (mips_required t)\<rparr>, g')) \<or>
     (\<exists>nm i amt. i \<in> set (active_nodes (nodes s)) \<and>
        nodes s ! i \<noteq> nodes s ! nm \<and> 0 < amt \<and> amt \<le> mips_required t \<and>
        amt \<le> capacity (nodes s ! i) - current_load (nodes s ! i) \<and>
        amt \<le> current_load (nodes s ! nm) * (3 / 10) \<and>
        lion_allocate s l t g =
          Return (True, s\<lparr>variant := Lion (l\<lparr>territories := ts', nomads := nms\<rparr>),
                           nodes := add_load (sub_load (nodes s) nm amt) i amt\<rparr>, g') \<and>
        nm \<in> set nms))"
proof -
  have "(\<exists>g1. hunting_loop (nodes s) t [] (territories l) g = Inr (None, g1)) \<or>
     (\<exists>g1 i ts'. hunting_loop (nodes s) t [] (territories l) g
           = Inr (Some (add_load (nodes s) i (mips_required t), ts'), g1) \<and>
        fits (nodes s) i t \<and> is_active (nodes s ! i) \<and>
        (\<exists>terr\<in>set (territories l). i \<in> set (t_nodes terr)) \<and>
        map t_nodes ts' = map t_nodes (territories l))"
    using hunting_loop_result[OF refl, of "nodes s" t "[]" "territories l" g] by simp
  then consider (miss) g1 where "hunting_loop (nodes s) t [] (territories l) g = Inr (None, g1)"
    | (hit) g1 i ts' where
        "hunting_loop (nodes s) t [] (territories l) g
           = Inr (Some (add_load (nodes s) i (mips_required t), ts'), g1)"
        "fits (nodes s) i t" "is_active (nodes s ! i)"
        "\<exists>terr\<in>set (territories l). i \<in> set (t_nodes terr)"
        "map t_nodes ts' = map t_nodes (territories l)"
    by blast
  then show ?thesis
  proof cases
    case hit
    from hit(1) have
      "lion_allocate s l t g =
         Return (True, s\<lparr>variant := Lion (l\<lparr>territories := ts', nomads := nomads l\<rparr>),
                          nodes := add_load (nodes s) i (mips_required t)\<rparr>, g1)"
      by (simp add: lion_allocate_def)
    with hit(2-5) show ?thesis
      by (intro exI[of _ ts'] exI[of _ "nomads l"] exI[of _ g1]) blast
  next
    case miss
    from nomad_phase_result[OF v, of t] obtain nms where
      sub: "set nms \<subseteq> set (nomads l) \<union> set (active_nodes (nodes s))" and
      np: "nomad_phase s l t = Return (False, s\<lparr>variant := Lion (l\<lparr>nomads := nms\<rparr>)\<rparr>) \<or>
        (\<exists>nm i amt. i \<in> set (active_nodes (nodes s)) \<and>
          nodes s ! i \<noteq> nodes s ! nm \<and> 0 < amt \<and> amt \<le> mips_required t \<and>
          amt \<le> capacity (nodes s ! i) - current_load (nodes s ! i) \<and>
          amt \<le> current_load (nodes s ! nm) * (3 / 10) \<and>
          nomad_phase s l t =
            Return (True, s\<lparr>variant := Lion (l\<lparr>nomads := nms\<rparr>),
                             nodes := add_load (sub_load (nodes s) nm amt) i amt\<rparr>) \<and>
          nm \<in> set nms)"
      by blast
    have l_eq: "l\<lparr>territories := territories l, nomads := nms\<rparr> = l\<lparr>nomads := nms\<rparr>" by simp
    from np show ?thesis
    proof (elim disjE exE conjE)
      fix nm i amt
      assume a: "i \<in> set (active_nodes (nodes s))" "nodes s ! i \<noteq> nodes s ! nm" "0 < amt"
        "amt \<le> mips_required t" "amt \<le> capacity (nodes s ! i) - current_load (nodes s ! i)"
        "amt \<le> current_load (nodes s ! nm) * (3 / 10)"
        "nomad_phase s l t =
            Return (True, s\<lparr>variant := Lion (l\<lparr>nomads := nms\<rparr>),
                             nodes := add_load (sub_load (nodes s) nm amt) i amt\<rparr>)"
        "nm \<in> set nms"
      from miss a(7) have
        "lion_allocate s l t g =
           Return (True, s\<lparr>variant := Lion (l\<lparr>territories := territories l, nomads := nms\<rparr>),
                            nodes := add_load (sub_load (nodes s) nm amt) i amt\<rparr>, g1)"
        by (simp add: lion_allocate_def)
      with a(1-6,8) sub show ?thesis
        by (intro exI[of _ "territories l"] exI[of _ nms] exI[of _ g1]) blast
    next
      assume f: "nomad_phase s l t = Return (False, s\<lparr>variant := Lion (l\<lparr>nomads := nms\<rparr>)\<rparr>)"
      let ?s1 = "s\<lparr>variant := Lion (l\<lparr>nomads := nms\<rparr>)\<rparr>"
      show ?thesis
      proof (cases "active_nodes (nodes s) = []")
        case True
        with miss f have
          "lion_allocate s l t g =
             Return (False, s\<lparr>variant := Lion (l\<lparr>territories := territories l, nomads := nms\<rparr>)\<rparr>, g1)"
          by (simp add: lion_allocate_def)
        with sub show ?thesis
          by (intro exI[of _ "territories l"] exI[of _ nms] exI[of _ g1]) blast
      next
        case False
        from fitness_min_ok[OF False, of "nodes s"] obtain best where
          best: "best \<in> set (active_nodes (nodes s))"
            "py_min xless (fitness_key (nodes s)) (active_nodes (nodes s)) = Inr best" by blast
        then have bact: "best < length (nodes s)" "is_active (nodes s ! best)"
          by (simp_all add: active_nodes_iff)
        show ?thesis
        proof (cases "fits (nodes s) best t")
          case True
          with miss f False best(2) have
            "lion_allocate s l t g =
               Return (True, s\<lparr>variant := Lion (l\<lparr>territories := territories l, nomads := nms\<rparr>),
                                nodes := add_load (nodes s) best (mips_required t)\<rparr>, g1)"
            by (simp add: lion_allocate_def)
          with True bact sub show ?thesis
            by (intro exI[of _ "territories l"] exI[of _ nms] exI[of _ g1]) blast
        next
          case nofit: False
          with miss f False best(2) have
            "lion_allocate s l t g =
               Return (False, s\<lparr>variant := Lion (l\<lparr>territories := territories l, nomads := nms\<rparr>)\<rparr>, g1)"
            by (simp add: lion_allocate_def)
          with sub show ?thesis
            by (intro exI[of _ "territories l"] exI[of _ nms] exI[of _ g1]) blast
        qed
      qed
    qed
  qed
qed

lemma variant_step_refl [simp]: "variant_step s (variant s)"
  by (cases "variant s") (auto simp: variant_step_def)

lemma update_variant_same [simp]: "s\<lparr>variant := variant s\<rparr> = s"
  by simp

text \<open>Every outcome of one call of \<open>allocate_task\<close>.\<close>

lemma allocate_task_result:
  "(\<exists>v g'. variant_step s v \<and> allocate_task s t g = Return (False, s\<lparr>variant := v\<rparr>, g')) \<or>
   (\<exists>v g' i. variant_step s v \<and> is_active (nodes s ! i) \<and> fits (nodes s) i t \<and>
      (refs_ok s \<longrightarrow> i < length (nodes s)) \<and>
      allocate_task s t g =
        Return (True, s\<lparr>variant := v, nodes := add_load (nodes s) i (mips_required t)\<rparr>, g')) \<or>
   (\<exists>v g' nm i amt. variant_step s v \<and> (\<exists>l. variant s = Lion l) \<and>
      i \<in> set (active_nodes (nodes s)) \<and> nodes s ! i \<noteq> nodes s ! nm \<and> 0 < amt \<and>
      amt \<le> mips_required t \<and> amt \<le> capacity (nodes s ! i) - current_load (nodes s ! i) \<and>
      amt \<le> current_load (nodes s ! nm) * (3 / 10) \<and>
      (refs_ok s \<longrightarrow> nm < length (nodes s)) \<and>
      allocate_task s t g =
        Return (True, s\<lparr>variant := v, nodes := add_load (sub_load (nodes s) nm amt) i amt\<rparr>, g')) \<or>
   (\<exists>v e. variant_step s v \<and> allocate_task s t g = Raise e (s\<lparr>variant := v\<rparr>) \<and>
      ((\<exists>c. variant s = Crow c) \<or> (\<exists>m. variant s = Monarch m \<and> bar m + 1 = 0)))"
proof (cases "variant s")
  case (Bat b)
  from bat_allocate_result[of s b t g] obtain g' where
    "bat_allocate s b t g = Return (False, s, g') \<or>
     (\<exists>i. i \<in> set (active_nodes (nodes s)) \<and> fits (nodes s) i t \<and>
        bat_allocate s b t g = Return (True, s\<lparr>nodes := add_load (nodes s) i (mips_required t)\<rparr>, g'))"
    by blast
  then show ?thesis
  proof (elim disjE exE conjE)
    assume "bat_allocate s b t g = Return (False, s, g')"
    with Bat have "allocate_task s t g = Return (False, s\<lparr>variant := variant s\<rparr>, g')"
      by (simp add: allocate_task_def)
    then show ?thesis using variant_step_refl by blast
  next
    fix i
    assume a: "i \<in> set (active_nodes (nodes s))" "fits (nodes s) i t"
      "bat_allocate s b t g = Return (True, s\<lparr>nodes := add_load (nodes s) i (mips_required t)\<rparr>, g')"
    with Bat have "allocate_task s t g =
        Return (True, s\<lparr>variant := variant s, nodes := add_load (nodes s) i (mips_required t)\<rparr>, g')"
      by (simp add: allocate_task_def)
    moreover from a(1) have "is_active (nodes s ! i)" "i < length (nodes s)"
      by (simp_all add: active_nodes_iff)
    ultimately show ?thesis using a(2) variant_step_refl by blast
  qed
next
  case (Monarch m)
  show ?thesis
  proof (cases "bar m + 1 = 0")
    case True
    then have "monarch_allocate s m t g = Return (False, s, snd (random_random g)) \<or>
               monarch_allocate s m t g = Return (False, s, g) \<or>
               monarch_allocate s m t g = Raise ZeroDivisionError s"
      by (auto simp: monarch_allocate_def Let_def py_div_def split: prod.splits)
    then show ?thesis
    proof (elim disjE)
      assume "monarch_allocate s m t g = Raise ZeroDivisionError s"
      with Monarch have "allocate_task s t g = Raise ZeroDivisionError (s\<lparr>variant := variant s\<rparr>)"
        by (simp add: allocate_task_def)
      with Monarch True show ?thesis using variant_step_refl by blast
    next
      assume "monarch_allocate s m t g = Return (False, s, snd (random_random g))"
      with Monarch have "allocate_task s t g = Return (False, s\<lparr>variant := variant s\<rparr>, snd (random_random g))"
        by (simp add: allocate_task_def)
      then show ?thesis using variant_step_refl by blast
    next
      assume "monarch_allocate s m t g = Return (False, s, g)"
      with Monarch have "allocate_task s t g = Return (False, s\<lparr>variant := variant s\<rparr>, g)"
        by (simp add: allocate_task_def)
      then show ?thesis using variant_step_refl by blast
    qed
  next
    case False
    from monarch_allocate_result[OF False, of s t g] obtain g' where
      "monarch_allocate s m t g = Return (False, s, g') \<or>
       (\<exists>i. i \<in> set (active_nodes (nodes s)) \<and> fits (nodes s) i t \<and>
          monarch_allocate s m t g = Return (True, s\<lparr>nodes := add_load (nodes s) i (mips_required t)\<rparr>, g'))"
      by blast
    then show ?thesis
    proof (elim disjE exE conjE)
      assume "monarch_allocate s m t g = Return (False, s, g')"
      with Monarch have "allocate_task s t g = Return (False, s\<lparr>variant := variant s\<rparr>, g')"
        by (simp add: allocate_task_def)
      then show ?thesis using variant_step_refl by blast
    next
      fix i
      assume a: "i \<in> set (active_nodes (nodes s))" "fits (nodes s) i t"
        "monarch_allocate s m t g = Return (True, s\<lparr>nodes := add_load (nodes s) i (mips_required t)\<rparr>, g')"
      with Monarch have "allocate_task s t g =
          Return (True, s\<lparr>variant := variant s, nodes := add_load (nodes s) i (mips_required t)\<rparr>, g')"
        by (simp add: allocate_task_def)
      moreover from a(1) have "is_active (nodes s ! i)" "i < length (nodes s)"
        by (simp_all add: active_nodes_iff)
      ultimately show ?thesis using a(2) variant_step_refl by blast
    qed
  qed
next
  case (Crow c)
  have at: "allocate_task s t g = crow_allocate s c t g" using Crow by (simp add: allocate_task_def)
  have vs: "\<And>mem. map (map_option mem_node) mem = map (map_option mem_node) (memory c) \<or>
            map (map_option mem_node) mem = map Some (active_nodes (nodes s))
            \<Longrightarrow> variant_step s (Crow (c\<lparr>memory := mem\<rparr>))"
    using Crow by (simp add: variant_step_def)
  have inrange: "\<And>mem slot. map (map_option mem_node) mem = map (map_option mem_node) (memory c) \<or>
            map (map_option mem_node) mem = map Some (active_nodes (nodes s))
            \<Longrightarrow> Some slot \<in> set mem \<Longrightarrow> refs_ok s \<Longrightarrow> mem_node slot < length (nodes s)"
  proof -
    fix mem slot
    assume sh: "map (map_option mem_node) mem = map (map_option mem_node) (memory c) \<or>
            map (map_option mem_node) mem = map Some (active_nodes (nodes s))"
      and sl: "Some slot \<in> set mem" and ok: "refs_ok s"
    from sl have in_img: "Some (mem_node slot) \<in> set (map (map_option mem_node) mem)" by force
    from sh show "mem_node slot < length (nodes s)"
    proof
      assume "map (map_option mem_node) mem = map (map_option mem_node) (memory c)"
      with in_img have "Some (mem_node slot) \<in> map_option mem_node ` set (memory c)" by simp
      then obtain m where m: "m \<in> set (memory c)" "map_option mem_node m = Some (mem_node slot)"
        by force
      then obtain slot' where "m = Some slot'" "mem_node slot' = mem_node slot" by (cases m) auto
      with m(1) ok Crow show ?thesis by (auto simp: refs_ok_def list_all_iff)
    next
      assume "map (map_option mem_node) mem = map Some (active_nodes (nodes s))"
      with in_img have "mem_node slot \<in> set (active_nodes (nodes s))" by auto
      then show ?thesis by (simp add: active_nodes_iff)
    qed
  qed
  define shape where "shape mem \<longleftrightarrow>
      (map (map_option mem_node) mem = map (map_option mem_node) (memory c) \<or>
       map (map_option mem_node) mem = map Some (active_nodes (nodes s)))" for mem :: "memory_slot option list"
  from crow_allocate_result[of s c t g, folded shape_def]
  consider (idle) "crow_allocate s c t g = Return (False, s, g)"
    | (raised) mem where "shape mem"
        "crow_allocate s c t g = Raise IndexError (s\<lparr>variant := Crow (c\<lparr>memory := mem\<rparr>)\<rparr>)"
    | (refused) mem where "shape mem"
        "crow_allocate s c t g = Return (False, s\<lparr>variant := Crow (c\<lparr>memory := mem\<rparr>)\<rparr>, g)"
    | (placed) mem slot where "shape mem" "Some slot \<in> set mem"
        "is_active (nodes s ! mem_node slot)" "fits (nodes s) (mem_node slot) t"
        "crow_allocate s c t g =
           Return (True, s\<lparr>variant := Crow (c\<lparr>memory := mem\<rparr>),
                            nodes := add_load (nodes s) (mem_node slot) (mips_required t)\<rparr>, g)"
    by blast
  then show ?thesis
  proof cases
    case idle
    with at have "allocate_task s t g = Return (False, s\<lparr>variant := variant s\<rparr>, g)" by simp
    then show ?thesis using variant_step_refl by blast
  next
    case raised
    from raised(1) have "variant_step s (Crow (c\<lparr>memory := mem\<rparr>))"
      unfolding shape_def by (rule vs)
    with at raised(2) Crow show ?thesis by auto
  next
    case refused
    from refused(1) have "variant_step s (Crow (c\<lparr>memory := mem\<rparr>))"
      unfolding shape_def by (rule vs)
    with at refused(2) show ?thesis by auto
  next
    case placed
    from placed(1) have v: "variant_step s (Crow (c\<lparr>memory := mem\<rparr>))"
      unfolding shape_def by (rule vs)
    from placed(1,2) have "refs_ok s \<longrightarrow> mem_node slot < length (nodes s)"
      unfolding shape_def using inrange by blast
    with at v placed(3-5) show ?thesis by auto
  qed
next
  case (Lion l)
  have at: "allocate_task s t g = lion_allocate s l t g" using Lion by (simp add: allocate_task_def)
  from lion_allocate_result[OF Lion, of t g] obtain ts' nms g' where
    tn: "map t_nodes ts' = map t_nodes (territories l)" and
    sub: "set nms \<subseteq> set (nomads l) \<union> set (active_nodes (nodes s))" and
    r: "(ts' = territories l \<and>
      lion_allocate s l t g = Return (False, s\<lparr>variant := Lion (l\<lparr>territories := ts', nomads := nms\<rparr>)\<rparr>, g')) \<or>
     (\<exists>i. is_active (nodes s ! i) \<and> fits (nodes s) i t \<and>
        (i < length (nodes s) \<or> (\<exists>terr\<in>set (territories l). i \<in> set (t_nodes terr))) \<and>
        lion_allocate s l t g =
          Return (True, s\<lparr>variant := Lion (l\<lparr>territories := ts', nomads := nms\<rparr>),
                           nodes := add_load (nodes s) i (mips_required t)\<rparr>, g')) \<or>
     (\<exists>nm i amt. i \<in> set (active_nodes (nodes s)) \<and>
        nodes s ! i \<noteq> nodes s ! nm \<and> 0 < amt \<and> amt \<le> mips_required t \<and>
        amt \<le> capacity (nodes s ! i) - current_load (nodes s ! i) \<and>
        amt \<le> current_load (nodes s ! nm) * (3 / 10) \<and>
        lion_allocate s l t g =
          Return (True, s\<lparr>variant := Lion (l\<lparr>territories := ts', nomads := nms\<rparr>),
                           nodes := add_load (sub_load (nodes s) nm amt) i amt\<rparr>, g') \<and>
        nm \<in> set nms)"
    by blast
  have vs: "variant_step s (Lion (l\<lparr>territories := ts', nomads := nms\<rparr>))"
    using Lion tn sub by (simp add: variant_step_def)
  from r consider
      (refused) "lion_allocate s l t g = Return (False, s\<lparr>variant := Lion (l\<lparr>territories := ts', nomads := nms\<rparr>)\<rparr>, g')"
    | (placed) i where "is_active (nodes s ! i)" "fits (nodes s) i t"
        "i < length (nodes s) \<or> (\<exists>terr\<in>set (territories l). i \<in> set (t_nodes terr))"
        "lion_allocate s l t g =
          Return (True, s\<lparr>variant := Lion (l\<lparr>territories := ts', nomads := nms\<rparr>),
                           nodes := add_load (nodes s) i (mips_required t)\<rparr>, g')"
    | (moved) nm i amt where "i \<in> set (active_nodes (nodes s))"
        "nodes s ! i \<noteq> nodes s ! nm" "0 < amt" "amt \<le> mips_required t"
        "amt \<le> capacity (nodes s ! i) - current_load (nodes s ! i)"
        "amt \<le> current_load (nodes s ! nm) * (3 / 10)"
        "lion_allocate s l t g =
          Return (True, s\<lparr>variant := Lion (l\<lparr>territories := ts', nomads := nms\<rparr>),
                           nodes := add_load (sub_load (nodes s) nm amt) i amt\<rparr>, g')"
        "nm \<in> set nms"
    by blast
  then show ?thesis
  proof cases
    case refused
    with at vs show ?thesis by auto
  next
    case a: placed
    from a(3) Lion have "refs_ok s \<longrightarrow> i < length (nodes s)"
      by (auto simp: refs_ok_def list_all_iff)
    with at vs a show ?thesis by auto
  next
    case a: moved
    from a(7) at have "allocate_task s t g =
          Return (True, s\<lparr>variant := Lion (l\<lparr>territories := ts', nomads := nms\<rparr>),
                           nodes := add_load (sub_load (nodes s) nm amt) i amt\<rparr>, g')" by simp
    moreover from a(8) sub Lion have "refs_ok s \<longrightarrow> nm < length (nodes s)"
      by (auto simp: refs_ok_def list_all_iff active_nodes_iff)
    ultimately show ?thesis using vs a(1-6) Lion by blast
  qed
qed

subsection \<open>Consequences for the pool\<close>

lemma nth_add_load_other: "j \<noteq> i \<Longrightarrow> add_load ns i x ! j = ns ! j"
  by (simp add: add_load_def)

lemma nth_add_load_same:
  "i < length ns \<Longrightarrow> add_load ns i x ! i = (ns ! i)\<lparr>current_load := current_load (ns ! i) + x\<rparr>"
  by (simp add: add_load_def)

lemma add_load_beyond: "length ns \<le> i \<Longrightarrow> add_load ns i x = ns"
  by (simp add: add_load_def list_update_beyond)

lemma load_sub_load_le:
  "0 < x \<Longrightarrow> current_load (sub_load ns i x ! j) \<le> current_load (ns ! j)"
  by (cases "j = i"; cases "i < length ns") (simp_all add: sub_load_def list_update_beyond)

lemma capacity_add_load [simp]: "map capacity (add_load ns i x) = map capacity ns"
  by (rule map_add_load) simp

lemma capacity_sub_load [simp]: "map capacity (sub_load ns i x) = map capacity ns"
  by (rule map_sub_load) simp

text \<open>The outcomes of a returning call, as a case rule.\<close>

lemma allocate_task_returnE:
  assumes "allocate_task s t g = Return (b, s', g')"
  obtains
    (refused) v where "\<not> b" "variant_step s v" "s' = s\<lparr>variant := v\<rparr>"
  | (placed) v i where "b" "variant_step s v" "is_active (nodes s ! i)" "fits (nodes s) i t"
      "refs_ok s \<longrightarrow> i < length (nodes s)"
      "s' = s\<lparr>variant := v, nodes := add_load (nodes s) i (mips_required t)\<rparr>"
  | (moved) v nm i amt l where "b" "variant_step s v" "variant s = Lion l"
      "i \<in> set (active_nodes (nodes s))" "nodes s ! i \<noteq> nodes s ! nm" "0 < amt"
      "amt \<le> mips_required t" "amt \<le> capacity (nodes s ! i) - current_load (nodes s ! i)"
      "amt \<le> current_load (nodes s ! nm) * (3 / 10)"
      "s' = s\<lparr>variant := v, nodes := add_load (sub_load (nodes s) nm amt) i amt\<rparr>"
      "refs_ok s \<longrightarrow> nm < length (nodes s)"
proof -
  from allocate_task_result[of s t g]
  consider
    (1) v g1 where "variant_step s v" "allocate_task s t g = Return (False, s\<lparr>variant := v\<rparr>, g1)"
  | (2) v g1 i where "variant_step s v" "is_active (nodes s ! i)" "fits (nodes s) i t"
      "refs_ok s \<longrightarrow> i < length (nodes s)"
      "allocate_task s t g =
        Return (True, s\<lparr>variant := v, nodes := add_load (nodes s) i (mips_required t)\<rparr>, g1)"
  | (3) v g1 nm i amt l where "variant_step s v" "variant s = Lion l"
      "i \<in> set (active_nodes (nodes s))" "nodes s ! i \<noteq> nodes s ! nm" "0 < amt"
      "amt \<le> mips_required t" "amt \<le> capacity (nodes s ! i) - current_load (nodes s ! i)"
      "amt \<le> current_load (nodes s ! nm) * (3 / 10)"
      "refs_ok s \<longrightarrow> nm < length (nodes s)"
      "allocate_task s t g =
        Return (True, s\<lparr>variant := v, nodes := add_load (sub_load (nodes s) nm amt) i amt\<rparr>, g1)"
  | (4) v e where "allocate_task s t g = Raise e (s\<lparr>variant := v\<rparr>)"
    by blast
  then show thesis
  proof cases
    case 1
    with assms have "\<not> b" "s' = s\<lparr>variant := v\<rparr>" by simp_all
    with 1(1) show thesis by (intro refused[of v]) simp_all
  next
    case 2
    with assms have "b" "s' = s\<lparr>variant := v, nodes := add_load (nodes s) i (mips_required t)\<rparr>"
      by simp_all
    then show thesis using 2(1-4) by (intro placed[of v i]) simp_all
  next
    case 3
    with assms have "b" "s' = s\<lparr>variant := v, nodes := add_load (sub_load (nodes s) nm amt) i amt\<rparr>"
      by simp_all
    then show thesis using 3(1-9) by (intro moved[of v l i nm amt]) simp_all
  next
    case 4
    with assms show thesis by simp
  qed
qed

text \<open>What a returning call leaves untouched.\<close>

lemma allocate_task_frame:
  assumes "allocate_task s t g = Return (b, s', g')"
  shows "\<exists>v ns. s' = s\<lparr>variant := v, nodes := ns\<rparr> \<and> variant_step s v \<and>
           length ns = length (nodes s) \<and> map failed ns = map failed (nodes s) \<and>
           map capacity ns = map capacity (nodes s) \<and> (\<not> b \<longrightarrow> ns = nodes s)"
  using assms
proof (cases rule: allocate_task_returnE)
  case (refused v)
  then have "s' = s\<lparr>variant := v, nodes := nodes s\<rparr>" by simp
  with refused(1,2) show ?thesis by blast
next
  case (placed v i)
  show ?thesis
    by (rule exI[of _ v], rule exI[of _ "add_load (nodes s) i (mips_required t)"])
       (use placed in simp)
next
  case (moved v nm i amt l)
  show ?thesis
    by (rule exI[of _ v], rule exI[of _ "add_load (sub_load (nodes s) nm amt) i amt"])
       (use moved in simp)
qed

lemma allocate_task_raise:
  assumes "allocate_task s t g = Raise e s'"
  shows "\<exists>v. s' = s\<lparr>variant := v\<rparr> \<and> variant_step s v \<and>
           ((\<exists>c. variant s = Crow c) \<or> (\<exists>m. variant s = Monarch m \<and> bar m + 1 = 0))"
  using allocate_task_result[of s t g] assms by (elim disjE exE conjE) auto

text \<open>A node whose load a call increased was active when the call was made.\<close>

lemma allocate_task_increase:
  assumes r: "allocate_task s t g = Return (b, s', g')"
    and inc: "current_load (nodes s ! i) < current_load (nodes s' ! i)"
  shows "i < length (nodes s) \<and> is_active (nodes s ! i)"
  using r
proof (cases rule: allocate_task_returnE)
  case (refused v)
  with inc show ?thesis by simp
next
  case (placed v j)
  from placed(6) have ns: "nodes s' = add_load (nodes s) j (mips_required t)" by simp
  have "j = i"
  proof (rule ccontr)
    assume "j \<noteq> i"
    then have "nodes s' ! i = nodes s ! i" using ns by (simp add: nth_add_load_other)
    with inc show False by simp
  qed
  moreover have "j < length (nodes s)"
  proof (rule ccontr)
    assume "\<not> j < length (nodes s)"
    then have "nodes s' = nodes s" using ns by (simp add: add_load_beyond)
    with inc show False by simp
  qed
  ultimately show ?thesis using placed(3) by simp
next
  case (moved v nm j amt l)
  from moved(10) have ns: "nodes s' = add_load (sub_load (nodes s) nm amt) j amt" by simp
  have "j = i"
  proof (rule ccontr)
    assume "j \<noteq> i"
    then have "nodes s' ! i = sub_load (nodes s) nm amt ! i"
      using ns by (simp add: nth_add_load_other)
    with load_sub_load_le[OF moved(6), of "nodes s" nm i] inc show False by simp
  qed
  with moved(4) show ?thesis by (simp add: active_nodes_iff)
qed

subsection \<open>Fault injection\<close>

lemma length_filter_update:
  "v < length xs \<Longrightarrow> \<not> P (xs ! v) \<Longrightarrow> P x \<Longrightarrow>
     length (filter P (xs[v := x])) = Suc (length (filter P xs))"
proof (induction xs arbitrary: v)
  case Nil
  then show ?case by simp
next
  case (Cons a xs)
  then show ?case by (cases v) auto
qed

lemma count_failed_cong:
  "map failed ns' = map failed ns \<Longrightarrow> length (filter failed ns') = length (filter failed ns)"
proof -
  assume eq: "map failed ns' = map failed ns"
  have h: "\<And>xs. length (filter failed xs) = length (filter id (map failed xs))"
    by (simp add: filter_map comp_def)
  show ?thesis by (simp only: h eq)
qed

lemma not_failed_refs_iff:
  "v \<in> set (not_failed_refs ns) \<longleftrightarrow> v < length ns \<and> \<not> failed (ns ! v)"
  by (auto simp: not_failed_refs_def)

text \<open>The outcomes of one call of \<open>simulate_failure\<close>, as a case rule.\<close>

lemma simulate_failure_cases:
  assumes "simulate_failure s g = r"
  obtains
    (suppressed) "r = Return (s, g)"
      "length (not_failed_refs (nodes s)) \<le> min_nodes_for_operation s \<or>
       max_failures s \<le> current_failures s"
  | (spared) g2 where "r = Return (s, g2)"
  | (idle) victim g2 where
      "victim < length (nodes s)" "\<not> failed (nodes s ! victim)"
      "current_failures s < max_failures s"
      "r = Return (s\<lparr>nodes := (nodes s)[victim := (nodes s ! victim)\<lparr>failed := True\<rparr>]\<rparr>, g2)"
  | (attempted) victim g1 g2 where
      "victim < length (nodes s)" "\<not> failed (nodes s ! victim)"
      "current_failures s < max_failures s"
      "min_nodes_for_operation s < length (not_failed_refs (nodes s))"
      "random_choice (not_failed_refs (nodes s)) g = Inr (victim, g1)"
      "fst (random_random g1) < fault_probability s" "g2 = snd (random_random g1)"
      "0 < current_load (nodes s ! victim)"
      "r = (case allocate_task
                  (s\<lparr>nodes := (nodes s)[victim := (nodes s ! victim)\<lparr>failed := True\<rparr>]\<rparr>)
                  (migration_task (current_load (nodes s ! victim))) g2 of
              Raise e s' \<Rightarrow> Raise e s'
            | Return (migrated, s2, g3) \<Rightarrow>
                if migrated then
                  Return (s2\<lparr>nodes := (nodes s2)[victim := (nodes s2 ! victim)
                                                       \<lparr>current_load := 0\<rparr>]\<rparr>, g3)
                else
                  Return (s2\<lparr>completed_tasks := completed_tasks s2
                                - py_int (current_load (nodes s2 ! victim) / 1000)\<rparr>, g3))"
proof (cases "length (not_failed_refs (nodes s)) \<le> min_nodes_for_operation s \<or>
       max_failures s \<le> current_failures s")
  case True
  with assms have "r = Return (s, g)" by (auto simp: simulate_failure_def Let_def)
  then show thesis using True by (intro suppressed)
next
  case False
  then have ne: "not_failed_refs (nodes s) \<noteq> []" by auto
  from random_choice_ok[OF ne, of g] obtain victim where
    v: "victim \<in> set (not_failed_refs (nodes s))"
       "random_choice (not_failed_refs (nodes s)) g = Inr (victim, stl g)" by blast
  from v(1) have vr: "victim < length (nodes s)" "\<not> failed (nodes s ! victim)"
    by (simp_all add: not_failed_refs_iff)
  obtain u g2 where u: "random_random (stl g) = (u, g2)" by force
  let ?s1 = "s\<lparr>nodes := (nodes s)[victim := (nodes s ! victim)\<lparr>failed := True\<rparr>]\<rparr>"
  have load1: "current_load (nodes ?s1 ! victim) = current_load (nodes s ! victim)"
    using vr(1) by simp
  show thesis
  proof (cases "u < fault_probability s")
    case no: False
    with assms False v(2) u have "r = Return (s, g2)"
      by (auto simp: simulate_failure_def Let_def)
    then show thesis by (rule spared)
  next
    case yes: True
    show thesis
    proof (cases "0 < current_load (nodes s ! victim)")
      case False
      with assms \<open>\<not> (length (not_failed_refs (nodes s)) \<le> min_nodes_for_operation s \<or>
          max_failures s \<le> current_failures s)\<close> v(2) u yes load1
      have "r = Return (?s1, g2)"
        by (auto simp: simulate_failure_def Let_def)
      with vr False show thesis
        using \<open>\<not> (length (not_failed_refs (nodes s)) \<le> min_nodes_for_operation s \<or>
          max_failures s \<le> current_failures s)\<close> by (intro idle[of victim g2]) auto
    next
      case True
      with assms False v(2) u yes load1
      have "r = (case allocate_task ?s1 (migration_task (current_load (nodes s ! victim))) g2 of
              Raise e s' \<Rightarrow> Raise e s'
            | Return (migrated, s2, g3) \<Rightarrow>
                if migrated then
                  Return (s2\<lparr>nodes := (nodes s2)[victim := (nodes s2 ! victim)
                                                       \<lparr>current_load := 0\<rparr>]\<rparr>, g3)
                else
                  Return (s2\<lparr>completed_tasks := completed_tasks s2
                                - py_int (current_load (nodes s2 ! victim) / 1000)\<rparr>, g3))"
        by (auto simp: simulate_failure_def Let_def)
      with vr False v(2) u yes True show thesis
        by (intro attempted[of victim "stl g" g2]) auto
    qed
  qed
qed

lemma map_failed_load_update [simp]:
  "map failed (ns[v := (ns ! v)\<lparr>current_load := x\<rparr>]) = map failed ns"
  by (cases "v < length ns") (simp_all add: map_update list_update_same_conv list_update_beyond)

text \<open>
  A call of \<open>simulate_failure\<close>, returning or raising, keeps the configuration and the size of
  the pool, and either leaves every \<open>failed\<close> flag as it was or sets the flag of exactly one
  node that was not failed, which it does only below the cap.
\<close>

lemma simulate_failure_effect:
  assumes "simulate_failure s g = Return (s', g') \<or> simulate_failure s g = Raise e s'"
  shows "num_nodes s' = num_nodes s \<and>
         min_nodes_for_operation s' = min_nodes_for_operation s \<and>
         length (nodes s') = length (nodes s) \<and>
         (map failed (nodes s') = map failed (nodes s) \<or>
          (\<exists>v<length (nodes s). \<not> failed (nodes s ! v) \<and> current_failures s < max_failures s \<and>
             map failed (nodes s') = (map failed (nodes s))[v := True]))"
proof -
  obtain r where r: "simulate_failure s g = r" by simp
  with assms have rs: "r = Return (s', g') \<or> r = Raise e s'" by simp
  from r show ?thesis
  proof (cases rule: simulate_failure_cases)
  case suppressed
  with rs show ?thesis by auto
next
  case (spared g2)
  with rs show ?thesis by auto
next
  case (idle victim g2)
  with rs have "s' = s\<lparr>nodes := (nodes s)[victim := (nodes s ! victim)\<lparr>failed := True\<rparr>]\<rparr>"
    by auto
  then have "num_nodes s' = num_nodes s" "min_nodes_for_operation s' = min_nodes_for_operation s"
    "length (nodes s') = length (nodes s)"
    "map failed (nodes s') = (map failed (nodes s))[victim := True]"
    by (simp_all add: map_update)
  with idle(1-3) show ?thesis by blast
next
  case (attempted victim g1 g2)
  let ?s1 = "s\<lparr>nodes := (nodes s)[victim := (nodes s ! victim)\<lparr>failed := True\<rparr>]\<rparr>"
  let ?t = "migration_task (current_load (nodes s ! victim))"
  have f1: "map failed (nodes ?s1) = (map failed (nodes s))[victim := True]"
    by (simp add: map_update)
  have "num_nodes s' = num_nodes s \<and> min_nodes_for_operation s' = min_nodes_for_operation s \<and>
        length (nodes s') = length (nodes s) \<and> map failed (nodes s') = map failed (nodes ?s1)"
  proof (cases "allocate_task ?s1 ?t g2")
    case (Raise e2 s2)
    with attempted(9) rs have "s' = s2" by auto
    moreover from allocate_task_raise[OF Raise] obtain v where "s2 = ?s1\<lparr>variant := v\<rparr>" by blast
    ultimately show ?thesis by simp
  next
    case (Return x)
    obtain b s2 g3 where x: "x = (b, s2, g3)" by (cases x) auto
    from allocate_task_frame[OF Return[unfolded x]] obtain v ns where
      fr: "s2 = ?s1\<lparr>variant := v, nodes := ns\<rparr>" "length ns = length (nodes ?s1)"
        "map failed ns = map failed (nodes ?s1)" by blast
    show ?thesis
    proof (cases b)
      case True
      with attempted(9) rs Return x
      have "s' = s2\<lparr>nodes := (nodes s2)[victim := (nodes s2 ! victim)\<lparr>current_load := 0\<rparr>]\<rparr>"
        by auto
      with fr show ?thesis by simp
    next
      case False
      with attempted(9) rs Return x
      have "s' = s2\<lparr>completed_tasks := completed_tasks s2
                      - py_int (current_load (nodes s2 ! victim) / 1000)\<rparr>"
        by auto
      with fr show ?thesis by simp
    qed
  qed
  with f1 attempted(1-3) show ?thesis by auto
  qed
qed

lemma count_after_flip:
  assumes "v < length ns" "\<not> failed (ns ! v)" "map failed ns' = (map failed ns)[v := True]"
  shows "length (filter failed ns') = Suc (length (filter failed ns))"
proof -
  have h: "\<And>xs. length (filter failed xs) = length (filter id (map failed xs))"
    by (simp add: filter_map comp_def)
  have "length (filter id ((map failed ns)[v := True])) = Suc (length (filter id (map failed ns)))"
    by (rule length_filter_update) (use assms in simp_all)
  then show ?thesis by (simp only: h assms(3))
qed

lemma simulate_failure_cap:
  assumes "simulate_failure s g = Return (s', g') \<or> simulate_failure s g = Raise e s'"
    and "current_failures s \<le> max_failures s"
  shows "current_failures s' \<le> max_failures s'"
proof -
  from simulate_failure_effect[OF assms(1)] have
    n: "num_nodes s' = num_nodes s" and
    f: "map failed (nodes s') = map failed (nodes s) \<or>
          (\<exists>v<length (nodes s). \<not> failed (nodes s ! v) \<and> current_failures s < max_failures s \<and>
             map failed (nodes s') = (map failed (nodes s))[v := True])"
    by simp_all
  from n have m: "max_failures s' = max_failures s" by (simp add: max_failures_def)
  from f show ?thesis
  proof
    assume "map failed (nodes s') = map failed (nodes s)"
    from count_failed_cong[OF this] assms(2) m show ?thesis by (simp add: current_failures_def)
  next
    assume "\<exists>v<length (nodes s). \<not> failed (nodes s ! v) \<and> current_failures s < max_failures s \<and>
             map failed (nodes s') = (map failed (nodes s))[v := True]"
    then obtain v where v: "v < length (nodes s)" "\<not> failed (nodes s ! v)"
      "current_failures s < max_failures s"
      "map failed (nodes s') = (map failed (nodes s))[v := True]" by blast
    from count_after_flip[OF v(1,2,4)] v(3) m show ?thesis by (simp add: current_failures_def)
  qed
qed

text \<open>The cap on failed nodes is an invariant of every reachable state.\<close>

lemma reachable_invariant:
  assumes "reachable s0 s" and "current_failures s0 \<le> max_failures s0"
  shows "current_failures s \<le> max_failures s \<and> num_nodes s = num_nodes s0 \<and>
         min_nodes_for_operation s = min_nodes_for_operation s0"
  using assms
proof (induction rule: reachable.induct)
  case start
  then show ?case by simp
next
  case (allocate_returns s t g b s' g')
  from allocate_task_frame[OF allocate_returns(2)] obtain v ns where
    fr: "s' = s\<lparr>variant := v, nodes := ns\<rparr>" "map failed ns = map failed (nodes s)" by blast
  from count_failed_cong[OF fr(2)] fr(1) allocate_returns(3)[OF allocate_returns(4)]
  show ?case by (auto simp: current_failures_def max_failures_def)
next
  case (allocate_raises s t g e s')
  from allocate_task_raise[OF allocate_raises(2)] obtain v where "s' = s\<lparr>variant := v\<rparr>" by blast
  with allocate_raises(3)[OF allocate_raises(4)]
  show ?case by (auto simp: current_failures_def max_failures_def)
next
  case (failure_returns s g s' g')
  from failure_returns(3)[OF failure_returns(4)] have ih:
    "current_failures s \<le> max_failures s" "num_nodes s = num_nodes s0"
    "min_nodes_for_operation s = min_nodes_for_operation s0" by simp_all
  have r: "simulate_failure s g = Return (s', g') \<or> simulate_failure s g = Raise undefined s'"
    using failure_returns(2) by simp
  from simulate_failure_cap[OF r ih(1)] simulate_failure_effect[OF r] ih
  show ?case by simp
next
  case (failure_raises s g e s')
  from failure_raises(3)[OF failure_raises(4)] have ih:
    "current_failures s \<le> max_failures s" "num_nodes s = num_nodes s0"
    "min_nodes_for_operation s = min_nodes_for_operation s0" by simp_all
  have r: "simulate_failure s g = Return (s', g) \<or> simulate_failure s g = Raise e s'"
    using failure_raises(2) by simp
  from simulate_failure_cap[OF r ih(1)] simulate_failure_effect[OF r] ih
  show ?case by simp
next
  case (counter s n)
  from counter(2)[OF counter(3)] show ?case by (auto simp: current_failures_def max_failures_def)
qed

subsection \<open>The run\<close>

lemma failed_kept_same:
  assumes "map failed ns' = map failed ns"
  shows "length ns' = length ns \<and> (\<forall>i<length ns. failed (ns ! i) \<longrightarrow> failed (ns' ! i))"
proof -
  from assms have len: "length ns' = length ns" by (rule map_eq_imp_length_eq)
  moreover have "failed (ns' ! i) = failed (ns ! i)" if "i < length ns" for i
  proof -
    from that len have "failed (ns' ! i) = map failed ns' ! i" by simp
    also have "\<dots> = map failed ns ! i" by (simp only: assms)
    also from that have "\<dots> = failed (ns ! i)" by simp
    finally show ?thesis .
  qed
  ultimately show ?thesis by simp
qed

lemma failed_kept_flip:
  assumes "map failed ns' = (map failed ns)[v := True]"
  shows "length ns' = length ns \<and> (\<forall>i<length ns. failed (ns ! i) \<longrightarrow> failed (ns' ! i))"
proof -
  from assms have "length (map failed ns') = length ((map failed ns)[v := True])" by simp
  then have len: "length ns' = length ns" by simp
  moreover have "failed (ns ! i) \<longrightarrow> failed (ns' ! i)" if "i < length ns" for i
  proof -
    from that len have "failed (ns' ! i) = map failed ns' ! i" by simp
    also have "\<dots> = (map failed ns)[v := True] ! i" by (simp only: assms)
    finally show ?thesis using that by (cases "i = v") simp_all
  qed
  ultimately show ?thesis by simp
qed

lemma simulate_failure_failed_kept:
  assumes "simulate_failure s g = Return (s', g') \<or> simulate_failure s g = Raise e s'"
  shows "length (nodes s') = length (nodes s) \<and>
         (\<forall>i<length (nodes s). failed (nodes s ! i) \<longrightarrow> failed (nodes s' ! i))"
  using simulate_failure_effect[OF assms] failed_kept_same[of "nodes s'" "nodes s"]
    failed_kept_flip[of "nodes s'" "nodes s"] by blast

lemma run_loop_failed_kept:
  "run_loop s ts g = Return (s', g') \<or> run_loop s ts g = Raise e s' \<Longrightarrow>
     length (nodes s') = length (nodes s) \<and>
     (\<forall>i<length (nodes s). failed (nodes s ! i) \<longrightarrow> failed (nodes s' ! i))"
proof (induction ts arbitrary: s g)
  case Nil
  then show ?case by auto
next
  case (Cons t rest)
  show ?case
  proof (cases "allocate_task s t g")
    case (Raise e2 s2)
    with Cons.prems have "s' = s2" by auto
    moreover from allocate_task_raise[OF Raise] obtain v where "s2 = s\<lparr>variant := v\<rparr>" by blast
    ultimately show ?thesis by simp
  next
    case (Return x)
    obtain placed s1 g1 where x: "x = (placed, s1, g1)" by (cases x) auto
    from allocate_task_frame[OF Return[unfolded x]] obtain v ns where
      fr: "s1 = s\<lparr>variant := v, nodes := ns\<rparr>" "map failed ns = map failed (nodes s)" by blast
    define s2 where "s2 = (if placed then s1\<lparr>completed_tasks := completed_tasks s1 + 1\<rparr> else s1)"
    have n2: "nodes s2 = ns" by (simp add: s2_def fr(1))
    from failed_kept_same[OF fr(2)] n2 have k2:
      "length (nodes s2) = length (nodes s)"
      "\<forall>i<length (nodes s). failed (nodes s ! i) \<longrightarrow> failed (nodes s2 ! i)" by simp_all
    obtain u g2 where u: "random_random g1 = (u, g2)" by force
    have step: "run_loop s (t # rest) g =
        (if u < 1 / 10 then
           (case simulate_failure s2 g2 of
              Raise e s' \<Rightarrow> Raise e s'
            | Return (s3, g3) \<Rightarrow> run_loop s3 rest g3)
         else run_loop s2 rest g2)"
      using Return x u by (simp add: s2_def Let_def)
    show ?thesis
    proof (cases "u < 1 / 10")
      case False
      with step Cons.prems have "run_loop s2 rest g2 = Return (s', g') \<or> run_loop s2 rest g2 = Raise e s'"
        by simp
      from Cons.IH[OF this] k2 show ?thesis by simp
    next
      case True
      show ?thesis
      proof (cases "simulate_failure s2 g2")
        case (Raise e3 s3)
        with step True Cons.prems have "s' = s3" by auto
        with Raise have "simulate_failure s2 g2 = Return (s', g2) \<or> simulate_failure s2 g2 = Raise e3 s'"
          by simp
        from simulate_failure_failed_kept[OF this] k2 show ?thesis by simp
      next
        case (Return y)
        obtain s3 g3 where y: "y = (s3, g3)" by (cases y) auto
        with Return have "simulate_failure s2 g2 = Return (s3, g3) \<or> simulate_failure s2 g2 = Raise e s3"
          by simp
        from simulate_failure_failed_kept[OF this] k2 have k3:
          "length (nodes s3) = length (nodes s)"
          "\<forall>i<length (nodes s). failed (nodes s ! i) \<longrightarrow> failed (nodes s3 ! i)" by simp_all
        from step True Return y Cons.prems
        have "run_loop s3 rest g3 = Return (s', g') \<or> run_loop s3 rest g3 = Raise e s'" by simp
        from Cons.IH[OF this] k3 show ?thesis by simp
      qed
    qed
  qed
qed

lemma run_failed_kept:
  assumes "run s g = Return (m, s', g') \<or> run s g = Raise e s'"
  shows "length (nodes s') = length (nodes s) \<and>
         (\<forall>i<length (nodes s). failed (nodes s ! i) \<longrightarrow> failed (nodes s' ! i))"
proof -
  from assms have "run_loop (s\<lparr>completed_tasks := 0\<rparr>) (tasks s) g = Return (s', g') \<or>
      run_loop (s\<lparr>completed_tasks := 0\<rparr>) (tasks s) g = Raise e s'"
    by (auto simp: run_def split: result.splits)
  from run_loop_failed_kept[OF this] show ?thesis by simp
qed

section \<open>Evaluation on the concrete objects\<close>

lemma nat_lists: "[0..<2] = [0, 1]" "[0..<3] = [0, 1, 2]" "[0..<4] = [0, 1, 2, 3]"
  by (simp_all add: upt_rec)

lemma mk_algo_sel [simp]:
  "nodes (mk_algo ns ts v) = ns" "tasks (mk_algo ns ts v) = ts" "variant (mk_algo ns ts v) = v"
  "num_nodes (mk_algo ns ts v) = length ns" "num_tasks (mk_algo ns ts v) = length ts"
  "fault_probability (mk_algo ns ts v) = 1 / 20" "min_nodes_for_operation (mk_algo ns ts v) = 3"
  "completed_tasks (mk_algo ns ts v) = 0"
  by (simp_all add: mk_algo_def)

lemma mk_node_sel [simp]:
  "capacity (mk_node i c l f) = c" "current_load (mk_node i c l f) = l"
  "failed (mk_node i c l f) = f" "node_id (mk_node i c l f) = i"
  "(mk_node i c l f)\<lparr>current_load := x\<rparr> = mk_node i c x f"
  "(mk_node i c l f)\<lparr>failed := y\<rparr> = mk_node i c l y"
  by (simp_all add: mk_node_def)

lemma mk_task_sel [simp]: "mips_required (mk_task i r) = r"
  by (simp add: mk_task_def)

lemma sconst_zero_draw [simp]: "random_random (sconst 0) = (0, sconst 0)"
  by (simp add: random_random_def)

lemma pool2_active: "active_nodes pool2 = [0, 1]"
  by (simp add: active_nodes_def is_active_def pool2_def upt_rec)

lemma pool2_best: "py_min (<) (utilization pool2) [0, 1] = Inr 0"
  by (simp add: py_min_def utilization_def py_div_def pool2_def)

lemma bat_pool2_allocation:
  "allocate_task (mk_algo pool2 [] (Bat bat_fields)) (mk_task 0 4000) (sconst 0) =
     Return (True, (mk_algo pool2 [] (Bat bat_fields))
                     \<lparr>nodes := [mk_node 0 8000 4000 False, mk_node 1 8000 0 False]\<rparr>, sconst 0)"
proof -
  have "fits pool2 0 (mk_task 0 4000)" by (simp add: fits_def pool2_def)
  moreover have "add_load pool2 0 4000 = [mk_node 0 8000 4000 False, mk_node 1 8000 0 False]"
    by (simp add: add_load_def pool2_def)
  ultimately show ?thesis
    by (simp add: allocate_task_def bat_allocate_def Let_def pool2_active pool2_best
          bat_fields_def del: One_nat_def)
qed

section \<open>The claims\<close>

text \<open>
  Claim C3.  For every strategy variant and every task, whenever \<open>allocate_task\<close> increases
  the \<open>current_load\<close> of a node, that node has \<open>failed = False\<close> and a positive capacity
  when the call is made: a failed node or a node of non-positive capacity is never the
  target of a new allocation.  (The node's flag and capacity are not changed by the call,
  so "at the moment of the increase" is the state at the call.)
\<close>

theorem allocation_target_is_active:
  assumes "allocate_task s t g = Return (b, s', g')"
    and "current_load (nodes s ! i) < current_load (nodes s' ! i)"
  shows "i < length (nodes s) \<and> \<not> failed (nodes s ! i) \<and> 0 < capacity (nodes s ! i)"
  using allocate_task_increase[OF assms] by (simp add: is_active_def)

theorem allocation_target_is_active_witness:
  "allocate_task (mk_algo pool2 [] (Bat bat_fields)) (mk_task 0 4000) (sconst 0) =
     Return (True, (mk_algo pool2 [] (Bat bat_fields))
                     \<lparr>nodes := [mk_node 0 8000 4000 False, mk_node 1 8000 0 False]\<rparr>, sconst 0) \<and>
   current_load (pool2 ! 0) < current_load ([mk_node 0 8000 4000 False, mk_node 1 8000 0 False] ! 0) \<and>
   0 < length pool2 \<and> \<not> failed (pool2 ! 0) \<and> 0 < capacity (pool2 ! 0)"
proof -
  have inc: "current_load (nodes (mk_algo pool2 [] (Bat bat_fields)) ! 0)
      < current_load (nodes ((mk_algo pool2 [] (Bat bat_fields))
                     \<lparr>nodes := [mk_node 0 8000 4000 False, mk_node 1 8000 0 False]\<rparr>) ! 0)"
    by (simp add: pool2_def)
  from allocation_target_is_active[OF bat_pool2_allocation inc] bat_pool2_allocation inc
  show ?thesis by simp
qed

lemma draw_high_random [simp]:
  "random_random (sconst draw_high) = (9007199254740991 / 9007199254740992, sconst draw_high)"
  by (simp add: random_random_def draw_high_def)

subsection \<open>A run of a Lion object of two nodes\<close>



lemma lion2_state_upd [simp]:
  "(lion2_state a b terr nms c)\<lparr>completed_tasks := c'\<rparr> = lion2_state a b terr nms c'"
  "(lion2_state a b terr nms c)
     \<lparr>nodes := [mk_node 0 8000 a' False, mk_node 1 8000 b' False],
      variant := Lion (lion_fields\<lparr>territories := [terr'], nomads := nms'\<rparr>)\<rparr>
     = lion2_state a' b' terr' nms' c"
  "(lion2_state a b terr nms c)
     \<lparr>variant := Lion (lion_fields\<lparr>territories := [terr'], nomads := nms'\<rparr>),
      nodes := [mk_node 0 8000 a' False, mk_node 1 8000 b' False]\<rparr>
     = lion2_state a' b' terr' nms' c"
  by (simp_all add: lion2_state_def)

lemma lion_fields_order [simp]:
  "lion_fields\<lparr>nomads := nms, territories := ts\<rparr> = lion_fields\<lparr>territories := ts, nomads := nms\<rparr>"
  by simp


lemma lion_fields_sel [simp]:
  "territories (lion_fields\<lparr>territories := ts, nomads := nms\<rparr>) = ts"
  "nomads (lion_fields\<lparr>territories := ts, nomads := nms\<rparr>) = nms"
  "migration_threshold (lion_fields\<lparr>territories := ts, nomads := nms\<rparr>) = 4 / 5"
  by (simp_all add: lion_fields_def)











lemma integral_simps [simp]: "integral 0" "integral (numeral k)" "integral (of_int z)"
  by (simp_all add: integral_def)

lemma integral_add: "integral x \<Longrightarrow> integral y \<Longrightarrow> integral (x + y)"
  by (metis integral_def of_int_add of_int_floor_cancel)

text \<open>
  Integer loads stay integer under every call that places its task: every call of a Bat,
  Crow or Monarch object, and the calls of a Lion object that do not move load between
  nodes.
\<close>

lemma integral_loads_add_load:
  assumes "integral_loads ns" and "integral x"
  shows "integral_loads (add_load ns i x)"
proof (cases "i < length ns")
  case False
  with assms(1) show ?thesis by (simp add: add_load_beyond)
next
  case True
  from assms(1) True have "integral (current_load (ns ! i))"
    by (simp add: integral_loads_def list_all_length)
  with assms(2) have "integral (current_load (ns ! i) + x)" by (rule integral_add[rotated])
  with assms(1) show ?thesis
    unfolding integral_loads_def list_all_length add_load_def
    by (metis length_list_update node.select_convs(5) node.surjective node.update_convs(5)
          nth_list_update_eq nth_list_update_neq)
qed

lemma allocate_task_keeps_integral_loads:
  assumes "integral_loads (nodes s)" and "integral (mips_required t)"
    and "\<not> (\<exists>l. variant s = Lion l)" and "allocate_task s t g = Return (b, s', g')"
  shows "integral_loads (nodes s')"
  using assms(4)
proof (cases rule: allocate_task_returnE)
  case (refused v)
  with assms(1) show ?thesis by simp
next
  case (placed v i)
  with integral_loads_add_load[OF assms(1,2), of i] show ?thesis by simp
next
  case (moved v nm i amt l)
  with assms(3) show ?thesis by simp
qed




lemma migration_task_sel [simp]: "mips_required (migration_task x) = x"
  by (simp add: migration_task_def)

lemma sconst_zero_choice [simp]:
  "random_choice (x # xs) (sconst 0) = Inr (x, sconst 0)"
  by (simp add: random_choice_def)

text \<open>The first node of \<open>pool4\<close> fails and its load of 500 moves to the second node.\<close>

lemma pool4_migration:
  "allocate_task
     ((mk_algo pool4 [] (Bat bat_fields))
        \<lparr>nodes := [mk_node 0 8000 500 True, mk_node 1 8000 0 False, mk_node 2 8000 0 False,
                   mk_node 3 8000 0 False]\<rparr>)
     (migration_task 500) (sconst 0) =
   Return (True,
     (mk_algo pool4 [] (Bat bat_fields))
        \<lparr>nodes := [mk_node 0 8000 500 True, mk_node 1 8000 500 False, mk_node 2 8000 0 False,
                   mk_node 3 8000 0 False]\<rparr>,
     sconst 0)"
proof -
  let ?ns = "[mk_node 0 8000 500 True, mk_node 1 8000 0 False, mk_node 2 8000 0 False,
              mk_node 3 8000 0 False]"
  have a: "active_nodes ?ns = [1, 2, 3]"
    by (simp add: active_nodes_def is_active_def upt_rec)
  have b: "py_min (<) (utilization ?ns) [1, 2, 3] = Inr 1"
    by (simp add: py_min_def utilization_def py_div_def)
  have c: "fits ?ns 1 (migration_task 500)" by (simp add: fits_def)
  have d: "add_load ?ns 1 500 = [mk_node 0 8000 500 True, mk_node 1 8000 500 False,
      mk_node 2 8000 0 False, mk_node 3 8000 0 False]"
    by (simp add: add_load_def)
  show ?thesis
    by (simp add: allocate_task_def bat_allocate_def Let_def a b c d bat_fields_def
          del: One_nat_def)
qed

lemma pool4_failure:
  "simulate_failure (mk_algo pool4 [] (Bat bat_fields)) (sconst 0) =
   Return ((mk_algo pool4 [] (Bat bat_fields))
        \<lparr>nodes := [mk_node 0 8000 0 True, mk_node 1 8000 500 False, mk_node 2 8000 0 False,
                   mk_node 3 8000 0 False]\<rparr>,
     sconst 0)"
proof -
  have a: "not_failed_refs pool4 = [0, 1, 2, 3]"
    by (simp add: not_failed_refs_def pool4_def upt_rec)
  have b: "max_failures (mk_algo pool4 [] (Bat bat_fields)) = 1"
    "current_failures (mk_algo pool4 [] (Bat bat_fields)) = 0"
    by (simp_all add: max_failures_def current_failures_def pool4_def)
  have c: "pool4[0 := (pool4 ! 0)\<lparr>failed := True\<rparr>] =
      [mk_node 0 8000 500 True, mk_node 1 8000 0 False, mk_node 2 8000 0 False,
       mk_node 3 8000 0 False]"
    by (simp add: pool4_def)
  show ?thesis
    by (simp add: simulate_failure_def Let_def a b c pool4_migration del: One_nat_def)
qed

lemma random_random_zero [simp]: "random_random (0 ## g) = (0, g)"
  by (simp add: random_random_def)

lemma random_random_high [simp]:
  "random_random (draw_high ## g) = (9007199254740991 / 9007199254740992, g)"
  by (simp add: random_random_def draw_high_def)

lemma random_choice_zero [simp]: "random_choice (x # xs) (0 ## g) = Inr (x, g)"
  by (simp add: random_choice_def)

text \<open>
  Claim C10.  No core operation changes a node's \<open>failed\<close> flag from \<open>True\<close> back to \<open>False\<close>:
  \<open>allocate_task\<close> of every variant leaves every flag as it is, whether it returns or raises;
  \<open>simulate_failure\<close> leaves every flag as it is or sets the flag of exactly one node that
  was not failed; over a whole \<open>run\<close> the pool keeps its size and every node that was failed
  stays failed.  (\<open>calculate_metrics\<close> returns the metrics only: it has no state to change.)
\<close>

theorem failed_flag_is_permanent:
  "(allocate_task s t g = Return (b, s1, g1) \<or> allocate_task s t g = Raise e s1 \<longrightarrow>
      map failed (nodes s1) = map failed (nodes s)) \<and>
   (simulate_failure s g = Return (s2, g2) \<or> simulate_failure s g = Raise e s2 \<longrightarrow>
      map failed (nodes s2) = map failed (nodes s) \<or>
      (\<exists>v<length (nodes s). \<not> failed (nodes s ! v) \<and>
         map failed (nodes s2) = (map failed (nodes s))[v := True])) \<and>
   (run s g = Return (m, s3, g3) \<or> run s g = Raise e s3 \<longrightarrow>
      length (nodes s3) = length (nodes s) \<and>
      (\<forall>i<length (nodes s). failed (nodes s ! i) \<longrightarrow> failed (nodes s3 ! i)))"
proof (intro conjI impI)
  assume "allocate_task s t g = Return (b, s1, g1) \<or> allocate_task s t g = Raise e s1"
  then show "map failed (nodes s1) = map failed (nodes s)"
  proof
    assume "allocate_task s t g = Return (b, s1, g1)"
    from allocate_task_frame[OF this] show ?thesis by auto
  next
    assume "allocate_task s t g = Raise e s1"
    from allocate_task_raise[OF this] show ?thesis by auto
  qed
next
  assume "simulate_failure s g = Return (s2, g2) \<or> simulate_failure s g = Raise e s2"
  from simulate_failure_effect[OF this]
  show "map failed (nodes s2) = map failed (nodes s) \<or>
      (\<exists>v<length (nodes s). \<not> failed (nodes s ! v) \<and>
         map failed (nodes s2) = (map failed (nodes s))[v := True])" by blast
next
  assume r: "run s g = Return (m, s3, g3) \<or> run s g = Raise e s3"
  from run_failed_kept[OF r] show "length (nodes s3) = length (nodes s)"
    and "\<forall>i<length (nodes s). failed (nodes s ! i) \<longrightarrow> failed (nodes s3 ! i)" by simp_all
qed

theorem failed_flag_is_permanent_witness:
  "simulate_failure (mk_algo pool4 [] (Bat bat_fields)) (sconst 0) =
     Return ((mk_algo pool4 [] (Bat bat_fields))
        \<lparr>nodes := [mk_node 0 8000 0 True, mk_node 1 8000 500 False, mk_node 2 8000 0 False,
                   mk_node 3 8000 0 False]\<rparr>, sconst 0) \<and>
   map failed pool4 = [False, False, False, False] \<and>
   (\<exists>v<length pool4. \<not> failed (pool4 ! v) \<and>
       map failed [mk_node 0 8000 0 True, mk_node 1 8000 500 False, mk_node 2 8000 0 False,
                   mk_node 3 8000 0 False] = (map failed pool4)[v := True])"
proof -
  have f: "map failed pool4 = [False, False, False, False]" by (simp add: pool4_def)
  have "map failed [mk_node 0 8000 0 True, mk_node 1 8000 500 False, mk_node 2 8000 0 False,
                   mk_node 3 8000 0 False] \<noteq> map failed pool4" by (simp add: f)
  with failed_flag_is_permanent[of "mk_algo pool4 [] (Bat bat_fields)" _ "sconst 0" _ _ _ _
      "(mk_algo pool4 [] (Bat bat_fields))
        \<lparr>nodes := [mk_node 0 8000 0 True, mk_node 1 8000 500 False, mk_node 2 8000 0 False,
                   mk_node 3 8000 0 False]\<rparr>" "sconst 0"] pool4_failure f
  show ?thesis by simp
qed

text \<open>
  Claim C2.  Start from a pool without failed nodes, with the operational minimum of 3
  that the constructor sets.  In every state reached from it by calls of
  \<open>simulate_failure\<close> (and of \<open>allocate_task\<close>, in any order and with any random outcome), the
  number of nodes with \<open>failed = True\<close> is at most \<open>max 1 (num_nodes div 10)\<close>; and whenever
  the number of nodes that are not failed is at most 3, or the number of failed nodes has
  reached that cap, \<open>simulate_failure\<close> returns at once with the object and the random source
  unchanged.
\<close>

theorem failure_cap_invariant:
  assumes "current_failures s0 = 0" and "min_nodes_for_operation s0 = 3"
    and "reachable s0 s"
  shows "current_failures s \<le> max 1 (num_nodes s0 div 10) \<and>
         (length (not_failed_refs (nodes s)) \<le> 3 \<or>
          max 1 (num_nodes s0 div 10) \<le> current_failures s
            \<longrightarrow> simulate_failure s g = Return (s, g))"
proof -
  from assms(1) have "current_failures s0 \<le> max_failures s0" by simp
  from reachable_invariant[OF assms(3) this] assms(2) have inv:
    "current_failures s \<le> max_failures s" "num_nodes s = num_nodes s0"
    "min_nodes_for_operation s = 3" by simp_all
  from inv(2) have m: "max_failures s = max 1 (num_nodes s0 div 10)"
    by (simp add: max_failures_def)
  show ?thesis
  proof (intro conjI impI)
    from inv(1) m show "current_failures s \<le> max 1 (num_nodes s0 div 10)" by simp
  next
    assume "length (not_failed_refs (nodes s)) \<le> 3 \<or>
            max 1 (num_nodes s0 div 10) \<le> current_failures s"
    with inv(3) m have "length (not_failed_refs (nodes s)) \<le> min_nodes_for_operation s \<or>
        max_failures s \<le> current_failures s" by simp
    then show "simulate_failure s g = Return (s, g)"
      by (auto simp: simulate_failure_def Let_def)
  qed
qed

theorem failure_cap_invariant_witness:
  "current_failures (mk_algo pool4 [] (Bat bat_fields)) = 0 \<and>
   reachable (mk_algo pool4 [] (Bat bat_fields))
     ((mk_algo pool4 [] (Bat bat_fields))
        \<lparr>nodes := [mk_node 0 8000 0 True, mk_node 1 8000 500 False, mk_node 2 8000 0 False,
                   mk_node 3 8000 0 False]\<rparr>) \<and>
   current_failures ((mk_algo pool4 [] (Bat bat_fields))
        \<lparr>nodes := [mk_node 0 8000 0 True, mk_node 1 8000 500 False, mk_node 2 8000 0 False,
                   mk_node 3 8000 0 False]\<rparr>) = 1 \<and>
   max 1 (num_nodes (mk_algo pool4 [] (Bat bat_fields)) div 10) = 1 \<and>
   simulate_failure ((mk_algo pool4 [] (Bat bat_fields))
        \<lparr>nodes := [mk_node 0 8000 0 True, mk_node 1 8000 500 False, mk_node 2 8000 0 False,
                   mk_node 3 8000 0 False]\<rparr>) (sconst 0)
     = Return ((mk_algo pool4 [] (Bat bat_fields))
        \<lparr>nodes := [mk_node 0 8000 0 True, mk_node 1 8000 500 False, mk_node 2 8000 0 False,
                   mk_node 3 8000 0 False]\<rparr>, sconst 0)"
proof -
  let ?init = "mk_algo pool4 [] (Bat bat_fields)"
  let ?after = "?init\<lparr>nodes := [mk_node 0 8000 0 True, mk_node 1 8000 500 False,
                        mk_node 2 8000 0 False, mk_node 3 8000 0 False]\<rparr>"
  have h1: "current_failures ?init = 0" by (simp add: current_failures_def pool4_def)
  have h2: "min_nodes_for_operation ?init = 3" by simp
  have h3: "reachable ?init ?after"
    by (rule reachable.failure_returns[OF reachable.start pool4_failure])
  have c: "current_failures ?after = 1" by (simp add: current_failures_def)
  have m: "max 1 (num_nodes ?init div 10) = 1" by (simp add: pool4_def)
  from failure_cap_invariant[OF h1 h2 h3, of "sconst 0"] c m
  have "simulate_failure ?after (sconst 0) = Return (?after, sconst 0)" by simp
  with h1 h3 c m show ?thesis by simp
qed




lemma random_random_below_one: "fst (random_random g) < 1"
proof -
  have "shd g mod 2 ^ 53 < (2 :: nat) ^ 53" by simp
  then have "(of_nat (shd g mod 2 ^ 53) :: rat) < of_nat (2 ^ 53)"
    by (simp only: of_nat_less_iff)
  then show ?thesis by (simp add: random_random_def)
qed

text \<open>The two paths of the Bat strategy, for a pool with an active node.\<close>

lemma bat_allocate_best:
  assumes "active_nodes (nodes s) = a" and "a \<noteq> []"
    and "py_min (<) (utilization (nodes s)) a = Inr best"
    and "random_random g = (u, g1)" and "\<not> pulse_rate b < u"
  shows "bat_allocate s b t g =
           (if fits (nodes s) best t
            then Return (True, s\<lparr>nodes := add_load (nodes s) best (mips_required t)\<rparr>, g1)
            else Return (False, s, g1))"
  using assms by (simp add: bat_allocate_def Let_def)

lemma bat_allocate_random:
  assumes "active_nodes (nodes s) = a" and "a \<noteq> []"
    and "py_min (<) (utilization (nodes s)) a = Inr best"
    and "random_random g = (u, g1)" and "pulse_rate b < u"
    and "random_choice a g1 = Inr (c, g2)" and "fits (nodes s) c t"
  shows "bat_allocate s b t g =
           Return (True, s\<lparr>nodes := add_load (nodes s) c (mips_required t)\<rparr>, g2)"
  using assms by (simp add: bat_allocate_def Let_def)

lemma pool_half_active: "active_nodes pool_half = [0, 1]"
  by (simp add: active_nodes_def is_active_def pool_half_def upt_rec)

lemma pool_half_best: "py_min (<) (utilization pool_half) [0, 1] = Inr 0"
  by (simp add: py_min_def utilization_def py_div_def pool_half_def)

lemma pool_half_random_first:
  "allocate_task (mk_algo pool_half [] (Bat \<lparr>loudness = 1 / 2, pulse_rate = 0\<rparr>))
     (mk_task 0 4000) (draw_high ## 1 ## sconst 0) =
   Return (True,
     (mk_algo pool_half [] (Bat \<lparr>loudness = 1 / 2, pulse_rate = 0\<rparr>))
       \<lparr>nodes := [mk_node 0 8000 0 False, mk_node 1 8000 8000 False]\<rparr>, sconst 0)"
proof -
  let ?s = "mk_algo pool_half [] (Bat \<lparr>loudness = 1 / 2, pulse_rate = 0\<rparr>)"
  have a: "active_nodes (nodes ?s) = [0, 1]" by (simp add: pool_half_active)
  have b: "py_min (<) (utilization (nodes ?s)) [0, 1] = Inr 0"
    by (simp add: pool_half_best del: One_nat_def)
  have u: "random_random (draw_high ## 1 ## sconst 0)
             = (9007199254740991 / 9007199254740992, 1 ## sconst 0)"
    by (simp add: random_random_def draw_high_def)
  have p: "pulse_rate \<lparr>loudness = 1 / 2, pulse_rate = 0\<rparr> < (9007199254740991 / 9007199254740992 :: rat)"
    by simp
  have c: "random_choice [0, 1 :: nat] (1 ## sconst 0) = Inr (1, sconst 0)"
    by (simp add: random_choice_def)
  have f: "fits (nodes ?s) 1 (mk_task 0 4000)" by (simp add: fits_def pool_half_def)
  have d: "add_load pool_half 1 4000 = [mk_node 0 8000 0 False, mk_node 1 8000 8000 False]"
    by (simp add: add_load_def pool_half_def)
  from bat_allocate_random[OF a _ b u p c f] d show ?thesis
    by (simp add: allocate_task_def)
qed

lemma pool_half_best_first:
  "allocate_task (mk_algo pool_half [] (Bat \<lparr>loudness = 1 / 2, pulse_rate = 1\<rparr>))
     (mk_task 0 4000) (draw_high ## 1 ## sconst 0) =
   Return (True,
     (mk_algo pool_half [] (Bat \<lparr>loudness = 1 / 2, pulse_rate = 1\<rparr>))
       \<lparr>nodes := [mk_node 0 8000 4000 False, mk_node 1 8000 4000 False]\<rparr>, 1 ## sconst 0)"
proof -
  let ?s = "mk_algo pool_half [] (Bat \<lparr>loudness = 1 / 2, pulse_rate = 1\<rparr>)"
  have a: "active_nodes (nodes ?s) = [0, 1]" by (simp add: pool_half_active)
  have b: "py_min (<) (utilization (nodes ?s)) [0, 1] = Inr 0"
    by (simp add: pool_half_best del: One_nat_def)
  have u: "random_random (draw_high ## 1 ## sconst 0)
             = (9007199254740991 / 9007199254740992, 1 ## sconst 0)"
    by (simp add: random_random_def draw_high_def)
  have p: "\<not> pulse_rate \<lparr>loudness = 1 / 2, pulse_rate = 1\<rparr> < (9007199254740991 / 9007199254740992 :: rat)"
    by simp
  have f: "fits (nodes ?s) 0 (mk_task 0 4000)" by (simp add: fits_def pool_half_def)
  have d: "add_load pool_half 0 4000 = [mk_node 0 8000 4000 False, mk_node 1 8000 4000 False]"
    by (simp add: add_load_def pool_half_def)
  from bat_allocate_best[OF a _ b u p, of "mk_task 0 4000"] f d show ?thesis
    by (simp add: allocate_task_def)
qed

text \<open>
  Claim C6, as amended.  The claim as stated takes \<open>pulse_rate = 0\<close> to switch the
  random-first attempt off; the test is \<^verbatim>\<open>random.random() > self.pulse_rate\<close>, so with
  \<open>pulse_rate = 0\<close> the attempt is made on every call whose draw is not exactly zero.  What
  holds: for the Bat strategy with \<open>pulse_rate \<ge> 1\<close> the random-first attempt is never tried
  (the draw is below 1), so every successful placement lands on a node that was least
  utilized (lowest \<open>current_load / capacity\<close> among the active, positive-capacity nodes) at
  the time of the call.
\<close>

theorem bat_without_random_first:
  assumes "variant s = Bat b" and "1 \<le> pulse_rate b"
    and "allocate_task s t g = Return (True, s', g')"
  shows "\<exists>i\<in>set (active_nodes (nodes s)).
           nodes s' = add_load (nodes s) i (mips_required t) \<and>
           (\<forall>j\<in>set (active_nodes (nodes s)).
              current_load (nodes s ! i) / capacity (nodes s ! i)
                \<le> current_load (nodes s ! j) / capacity (nodes s ! j))"
proof -
  from assms(1,3) have r: "bat_allocate s b t g = Return (True, s', g')"
    by (simp add: allocate_task_def)
  have ne: "active_nodes (nodes s) \<noteq> []"
  proof
    assume "active_nodes (nodes s) = []"
    with r show False by (simp add: bat_allocate_def)
  qed
  from py_min_ok[OF ne, of "utilization (nodes s)" "(<)"] utilization_active
  obtain best where best: "py_min (<) (utilization (nodes s)) (active_nodes (nodes s)) = Inr best"
    by blast
  obtain u g1 where u: "random_random g = (u, g1)" by force
  from random_random_below_one[of g] u assms(2) have "\<not> pulse_rate b < u" by simp
  from bat_allocate_best[OF refl ne best u this, of t] r
  have s': "nodes s' = add_load (nodes s) best (mips_required t)"
    by (auto split: if_splits)
  from py_min_mem[OF best] have bm: "best \<in> set (active_nodes (nodes s))" .
  from py_min_least[OF best] obtain kb where
    kb: "utilization (nodes s) best = Inr kb"
        "\<forall>x\<in>set (active_nodes (nodes s)). \<exists>kx. utilization (nodes s) x = Inr kx \<and> kb \<le> kx"
    by blast
  have "current_load (nodes s ! best) / capacity (nodes s ! best)
          \<le> current_load (nodes s ! j) / capacity (nodes s ! j)"
    if "j \<in> set (active_nodes (nodes s))" for j
    using kb that utilization_active[OF that] utilization_active[OF bm] by fastforce
  with bm s' show ?thesis by blast
qed

theorem bat_without_random_first_witness:
  "allocate_task (mk_algo pool_half [] (Bat \<lparr>loudness = 1 / 2, pulse_rate = 1\<rparr>))
     (mk_task 0 4000) (draw_high ## 1 ## sconst 0) =
   Return (True,
     (mk_algo pool_half [] (Bat \<lparr>loudness = 1 / 2, pulse_rate = 1\<rparr>))
       \<lparr>nodes := [mk_node 0 8000 4000 False, mk_node 1 8000 4000 False]\<rparr>, 1 ## sconst 0) \<and>
   (\<exists>i\<in>set (active_nodes pool_half).
      [mk_node 0 8000 4000 False, mk_node 1 8000 4000 False] = add_load pool_half i 4000 \<and>
      (\<forall>j\<in>set (active_nodes pool_half).
         current_load (pool_half ! i) / capacity (pool_half ! i)
           \<le> current_load (pool_half ! j) / capacity (pool_half ! j)))"
proof -
  have v: "variant (mk_algo pool_half [] (Bat \<lparr>loudness = 1 / 2, pulse_rate = 1\<rparr>))
             = Bat \<lparr>loudness = 1 / 2, pulse_rate = 1\<rparr>" by simp
  have p: "(1 :: rat) \<le> pulse_rate \<lparr>loudness = 1 / 2, pulse_rate = 1\<rparr>" by simp
  from bat_without_random_first[OF v p pool_half_best_first] pool_half_best_first
  show ?thesis by simp
qed

theorem bat_without_random_first_counterexample:
  "allocate_task (mk_algo pool_half [] (Bat \<lparr>loudness = 1 / 2, pulse_rate = 0\<rparr>))
     (mk_task 0 4000) (draw_high ## 1 ## sconst 0) =
   Return (True,
     (mk_algo pool_half [] (Bat \<lparr>loudness = 1 / 2, pulse_rate = 0\<rparr>))
       \<lparr>nodes := [mk_node 0 8000 0 False, mk_node 1 8000 8000 False]\<rparr>, sconst 0) \<and>
   active_nodes pool_half = [0, 1] \<and>
   utilization pool_half 0 = Inr 0 \<and> utilization pool_half 1 = Inr (1 / 2) \<and>
   map current_load pool_half = [0, 4000]"
  using pool_half_random_first pool_half_active
  by (simp add: utilization_def py_div_def pool_half_def)

subsection \<open>Construction\<close>

lemma initialize_nodes_loop_ok:
  "\<exists>ns g'. initialize_nodes_loop ids g = Inr (ns, g') \<and> length ns = length ids \<and>
     (\<forall>n\<in>set ns. \<not> failed n \<and> current_load n = 0 \<and> 0 < capacity n)"
proof (induction ids arbitrary: g)
  case Nil
  then show ?case by simp
next
  case (Cons i ids)
  obtain m g1 where m: "randint 2000 4000 g = Inr (m, g1)" by (simp add: randint_def)
  obtain c g2 where c: "randint 2000 4000 g1 = Inr (c, g2)" "2000 \<le> c"
    by (simp add: randint_def)
  obtain ec g3 where ec: "random_uniform (1 / 1000) (3 / 1000) g2 = (ec, g3)" by force
  from Cons.IH[of g3] obtain rest g4 where
    r: "initialize_nodes_loop ids g3 = Inr (rest, g4)" "length rest = length ids"
       "\<forall>n\<in>set rest. \<not> failed n \<and> current_load n = 0 \<and> 0 < capacity n" by blast
  from c(2) have "(0 :: rat) < of_int (4 * c)" by simp
  with m c(1) ec r show ?case by simp
qed

lemma generate_tasks_loop_ok:
  "\<exists>ts g'. generate_tasks_loop ids g = Inr (ts, g') \<and> length ts = length ids"
proof (induction ids arbitrary: g)
  case Nil
  then show ?case by simp
next
  case (Cons i ids)
  obtain len g1 where l: "randint 200 4000 g = Inr (len, g1)" by (simp add: randint_def)
  obtain req g2 where q: "randint 200 4000 g1 = Inr (req, g2)" by (simp add: randint_def)
  obtain prio g3 where p: "random_choice [1, 2, 3 :: nat] g2 = Inr (prio, g3)"
    by (simp add: random_choice_def)
  from Cons.IH[of g3] obtain rest g4 where
    "generate_tasks_loop ids g3 = Inr (rest, g4)" "length rest = length ids" by blast
  with l q p show ?case by simp
qed

lemma base_init_ok:
  "\<exists>s g'. base_init n m v g = Inr (s, g') \<and> num_nodes s = n \<and> length (nodes s) = n \<and>
     variant s = v \<and> min_nodes_for_operation s = 3 \<and> completed_tasks s = 0 \<and>
     (\<forall>x\<in>set (nodes s). \<not> failed x \<and> current_load x = 0 \<and> 0 < capacity x)"
proof -
  from initialize_nodes_loop_ok[of "[0..<n]" g] obtain ns g1 where
    ns: "initialize_nodes n g = Inr (ns, g1)" "length ns = n"
      "\<forall>x\<in>set ns. \<not> failed x \<and> current_load x = 0 \<and> 0 < capacity x"
    by (auto simp: initialize_nodes_def)
  from generate_tasks_loop_ok[of "[0..<m]" g1] obtain ts g2 where
    ts: "generate_tasks m g1 = Inr (ts, g2)" by (auto simp: generate_tasks_def)
  from ns ts show ?thesis by (simp add: base_init_def)
qed

subsection \<open>The territories\<close>

lemma slice_upt: "slice [0..<n] i (i + p) = [i..<min n (i + p)]"
proof (cases "i + p \<le> n")
  case True
  then show ?thesis by (simp add: slice_def min_def take_upt)
next
  case False
  then have "length [i..<n] \<le> p" by simp
  then have "take p [i..<n] = [i..<n]" by (rule take_all)
  with False show ?thesis by (simp add: slice_def min_def)
qed

lemma filter_upt_prefix:
  "m \<le> c \<Longrightarrow> (\<And>k. k < c \<Longrightarrow> P k \<longleftrightarrow> k < m) \<Longrightarrow> filter P [0..<c] = [0..<m]"
proof (induction c)
  case 0
  then show ?case by simp
next
  case (Suc c)
  show ?case
  proof (cases "m = Suc c")
    case True
    with Suc.prems(2) have "\<And>k. k < Suc c \<Longrightarrow> P k" by simp
    then have "filter P [0..<Suc c] = [0..<Suc c]" by (intro filter_True) simp
    with True show ?thesis by simp
  next
    case False
    with Suc.prems(1) have le: "m \<le> c" by simp
    with Suc.prems(2)[of c] have "\<not> P c" by simp
    moreover from Suc.IH[OF le] Suc.prems(2) have "filter P [0..<c] = [0..<m]" by simp
    ultimately show ?thesis by simp
  qed
qed

text \<open>
  The number of groups \<^verbatim>\<open>_initialize_territories\<close> keeps: the starts \<open>k * p\<close> that leave at
  least two nodes.
\<close>

lemma kept_groups:
  fixes k n p :: nat
  assumes p: "2 \<le> p"
  shows "k * p + 2 \<le> n \<longleftrightarrow> k < (if n < 2 then 0 else (n - 2) div p + 1)"
proof (cases "n < 2")
  case True
  then show ?thesis by simp
next
  case False
  from p have "0 < p" by simp
  have "k * p + 2 \<le> n \<longleftrightarrow> k * p \<le> n - 2" using False by auto
  also have "\<dots> \<longleftrightarrow> k \<le> (n - 2) div p"
    using \<open>0 < p\<close> by (simp add: less_eq_div_iff_mult_less_eq)
  finally show ?thesis using False by auto
qed

lemma initialize_territories_eq:
  fixes n p :: nat
  assumes p: "2 \<le> p"
  defines "m \<equiv> (if n < 2 then 0 else (n - 2) div p + 1)"
  shows "initialize_territories n p [0..<n] =
           Inr (if m = 0 then [new_territory [0..<n]]
                else map (\<lambda>k. new_territory [k * p..<min n (k * p + p)]) [0..<m])"
proof -
  let ?c = "(n + p - 1) div p"
  let ?f = "\<lambda>k. [k * p..<min n (k * p + p)]"
  from p have pos: "0 < p" by simp
  have rs: "range_step n p = Inr (map (\<lambda>k. k * p) [0..<?c])"
    using pos by (simp add: range_step_def)
  have tn: "map (\<lambda>i. slice [0..<n] i (i + p)) (map (\<lambda>k. k * p) [0..<?c]) = map ?f [0..<?c]"
    by (simp add: slice_upt)
  have in_c: "k < ?c \<longleftrightarrow> k * p < n" for k
  proof -
    have "k < ?c \<longleftrightarrow> Suc k \<le> ?c" by auto
    also have "\<dots> \<longleftrightarrow> Suc k * p \<le> n + p - 1"
      using pos by (simp add: less_eq_div_iff_mult_less_eq)
    also have "\<dots> \<longleftrightarrow> k * p < n" using pos by auto
    finally show ?thesis .
  qed
  have len: "2 \<le> length (?f k) \<longleftrightarrow> k * p + 2 \<le> n" for k
    using p by (auto simp: min_def)
  have m_le: "m \<le> ?c"
  proof (cases "m = 0")
    case True
    then show ?thesis by simp
  next
    case False
    then have n2: "\<not> n < 2" and mv: "m = (n - 2) div p + 1"
      by (simp_all add: m_def split: if_splits)
    have le: "(n - 2) div p * p \<le> n - 2" by simp
    from mv have "(m - 1) * p = (n - 2) div p * p" by simp
    with le n2 have "(m - 1) * p < n" by linarith
    with in_c[of "m - 1"] show ?thesis by simp
  qed
  have "filter (\<lambda>members. 2 \<le> length members) (map ?f [0..<?c])
          = map ?f (filter (\<lambda>k. 2 \<le> length (?f k)) [0..<?c])"
    by (simp add: filter_map comp_def)
  also have "filter (\<lambda>k. 2 \<le> length (?f k)) [0..<?c] = [0..<m]"
    by (rule filter_upt_prefix[OF m_le]) (simp only: len kept_groups[OF p] m_def)
  finally have found: "filter (\<lambda>members. 2 \<le> length members) (map ?f [0..<?c]) = map ?f [0..<m]" .
  have "initialize_territories n p [0..<n] =
      Inr (if map new_territory (map ?f [0..<m]) = [] then [new_territory [0..<n]]
           else map new_territory (map ?f [0..<m]))"
    by (simp only: initialize_territories_def rs Let_def sum.case tn found)
  then show ?thesis by (simp add: comp_def del: upt_Suc)
qed

lemma upt_glue: "a \<le> b \<Longrightarrow> b \<le> c \<Longrightarrow> [a..<b] @ [b..<c] = [a..<c]"
  by (metis le_Suc_ex upt_add_eq_append)

lemma concat_groups:
  fixes n p :: nat
  assumes "0 < p"
  shows "concat (map (\<lambda>k. [k * p..<min n (k * p + p)]) [0..<m]) = [0..<min n (m * p)]"
proof (induction m)
  case 0
  then show ?case by simp
next
  case (Suc m)
  have "[0..<min n (m * p)] @ [m * p..<min n (m * p + p)] = [0..<min n (m * p + p)]"
  proof (cases "m * p \<le> n")
    case True
    then have "min n (m * p) = m * p" by simp
    moreover have "m * p \<le> min n (m * p + p)" using True by simp
    ultimately show ?thesis by (simp add: upt_glue)
  next
    case False
    then show ?thesis by (simp add: min_def)
  qed
  with Suc show ?case by (simp add: add.commute)
qed

lemma covered_prefix:
  fixes n p :: nat
  assumes p: "2 \<le> p" and n: "2 \<le> n"
  shows "min n (((n - 2) div p + 1) * p) = (if n mod p = 1 then n - 1 else n)"
proof -
  define a where "a = (n - 2) div p"
  define b where "b = (n - 2) mod p"
  have b: "b < p" using p by (simp add: b_def)
  have "n - 2 = a * p + b" by (simp add: a_def b_def)
  with n have nab: "n = a * p + b + 2" by simp
  show ?thesis
  proof (cases "b + 2 \<le> p")
    case True
    have "n mod p \<noteq> 1"
    proof (cases "b + 2 = p")
      case True
      then have "n = (a + 1) * p" using nab by (simp add: algebra_simps)
      then show ?thesis by simp
    next
      case False
      with True have "b + 2 < p" by simp
      from nab have "n = a * p + (b + 2)" by simp
      then have "n mod p = (b + 2) mod p" by (simp only: mod_mult_self3)
      with \<open>b + 2 < p\<close> have "n mod p = b + 2" by simp
      then show ?thesis by simp
    qed
    moreover from True nab have "n \<le> (a + 1) * p" by (simp add: algebra_simps)
    ultimately show ?thesis by (simp add: a_def min_def)
  next
    case False
    with b have "b = p - 1" by simp
    with nab p have n1: "n = (a + 1) * p + 1" by (simp add: algebra_simps)
    then have "n mod p = 1 mod p" by (simp only: mod_mult_self3)
    with p have "n mod p = 1" by simp
    moreover from n1 have "min n ((a + 1) * p) = n - 1" by simp
    ultimately show ?thesis by (simp add: a_def)
  qed
qed

lemma t_nodes_new_territory [simp]: "t_nodes (new_territory xs) = xs"
  by (simp add: new_territory_def)

lemma lion_init_eq:
  assumes "num_nodes s = n" and "length (nodes s) = n"
  shows "\<exists>l. lion_init s = Inr l \<and> pride_size l = max 5 (n div 4) \<and> nomads l = [] \<and>
     map t_nodes (territories l) =
       (if n < 2 then [[0..<n]]
        else map (\<lambda>k. [k * pride_size l..<min n (k * pride_size l + pride_size l)])
               [0..<(n - 2) div pride_size l + 1])"
proof -
  let ?p = "max 5 (n div 4)"
  have p: "2 \<le> ?p" by simp
  from initialize_territories_eq[OF p, of n] assms
  have "lion_init s =
      Inr \<lparr>pride_size = ?p,
           territories =
             (if (if n < 2 then 0 else (n - 2) div ?p + 1) = 0 then [new_territory [0..<n]]
              else map (\<lambda>k. new_territory [k * ?p..<min n (k * ?p + ?p)])
                     [0..<(if n < 2 then 0 else (n - 2) div ?p + 1)]),
           nomads = [], migration_threshold = 4 / 5\<rparr>"
    by (simp add: lion_init_def Let_def del: upt_Suc)
  then show ?thesis by (auto simp: comp_def simp del: upt_Suc)
qed

text \<open>
  Claim C8, as amended.  The claim as stated has every node in some territory; the
  constructor keeps a group only if it has at least two nodes, so a trailing group of one
  node is dropped.  What holds at construction, with \<open>p = pride_size = max 5 (n div 4)\<close>: the
  constructor returns; for \<open>n < 2\<close> the single fallback territory holds the whole pool;
  otherwise the territories are, in order, the contiguous groups \<open>[k * p, min n (k * p + p))\<close>
  for \<open>k\<close> up to \<open>(n - 2) div p\<close>, every one of size \<open>p\<close> but possibly the last; together
  they form a partition of the first \<open>n\<close> nodes, except when \<open>n mod p = 1\<close> with \<open>n > 1\<close>,
  where they form a partition of the first \<open>n - 1\<close> nodes and the last node belongs to no
  territory.
\<close>

theorem lion_territories_at_construction:
  "\<exists>s g' l. LionOptimizationLB n m g = Inr (s, g') \<and> variant s = Lion l \<and>
     length (nodes s) = n \<and> pride_size l = max 5 (n div 4) \<and> nomads l = [] \<and>
     map t_nodes (territories l) =
       (if n < 2 then [[0..<n]]
        else map (\<lambda>k. [k * pride_size l..<min n (k * pride_size l + pride_size l)])
               [0..<(n - 2) div pride_size l + 1]) \<and>
     concat (map t_nodes (territories l)) =
       [0..<(if 1 < n \<and> n mod pride_size l = 1 then n - 1 else n)]"
proof -
  let ?v0 = "Lion \<lparr>pride_size = 0, territories = [], nomads = [], migration_threshold = 0\<rparr>"
  from base_init_ok[of n m ?v0 g] obtain s0 g1 where
    b: "base_init n m ?v0 g = Inr (s0, g1)" "num_nodes s0 = n" "length (nodes s0) = n" by blast
  from lion_init_eq[OF b(2,3)] obtain l where
    l: "lion_init s0 = Inr l" "pride_size l = max 5 (n div 4)" "nomads l = []"
       "map t_nodes (territories l) =
         (if n < 2 then [[0..<n]]
          else map (\<lambda>k. [k * pride_size l..<min n (k * pride_size l + pride_size l)])
                 [0..<(n - 2) div pride_size l + 1])" by blast
  have p: "2 \<le> pride_size l" "0 < pride_size l" using l(2) by simp_all
  have cover: "concat (map t_nodes (territories l)) =
       [0..<(if 1 < n \<and> n mod pride_size l = 1 then n - 1 else n)]"
  proof (cases "n < 2")
    case True
    with l(4) show ?thesis by simp
  next
    case False
    then have n2: "2 \<le> n" by simp
    from False l(4) have "concat (map t_nodes (territories l)) =
        [0..<min n (((n - 2) div pride_size l + 1) * pride_size l)]"
      by (simp only: if_False concat_groups[OF p(2)])
    with covered_prefix[OF p(1) n2] n2 show ?thesis by simp
  qed
  from b(1) l(1) have "LionOptimizationLB n m g = Inr (s0\<lparr>variant := Lion l\<rparr>, g1)"
    by (simp add: LionOptimizationLB_def)
  moreover have "variant (s0\<lparr>variant := Lion l\<rparr>) = Lion l"
    "length (nodes (s0\<lparr>variant := Lion l\<rparr>)) = n" using b(3) by simp_all
  ultimately show ?thesis using l(2,3,4) cover by blast
qed

theorem lion_territories_at_construction_witness:
  "\<exists>s g' l. LionOptimizationLB 10 0 (sconst 0) = Inr (s, g') \<and> variant s = Lion l \<and>
     length (nodes s) = 10 \<and> pride_size l = 5 \<and>
     concat (map t_nodes (territories l)) = [0..<10]"
proof -
  from lion_territories_at_construction[of 10 0 "sconst 0"] obtain s g' l where
    a: "LionOptimizationLB 10 0 (sconst 0) = Inr (s, g')" "variant s = Lion l"
       "length (nodes s) = 10" "pride_size l = max 5 (10 div 4)"
       "concat (map t_nodes (territories l)) =
          [0..<(if (1 :: nat) < 10 \<and> 10 mod pride_size l = 1 then 10 - 1 else 10)]"
    by blast
  from a(4) have p: "pride_size l = 5" by simp
  with a(5) have "concat (map t_nodes (territories l)) = [0..<10]" by simp
  with a(1-3) p show ?thesis by blast
qed

lemma initialize_nodes_loop_zero:
  "initialize_nodes_loop ids (sconst 0) = Inr (map (\<lambda>i. mk_node i 8000 0 False) ids, sconst 0)"
  by (induction ids) (simp_all add: randint_def random_uniform_def random_random_def mk_node_def)

lemma pool6_drawn: "initialize_nodes 6 (sconst 0) = Inr (pool6, sconst 0)"
proof -
  have "[0..<6] = [0, 1, 2, 3, 4, 5]" by (simp add: upt_rec)
  then show ?thesis
    by (simp add: initialize_nodes_def initialize_nodes_loop_zero pool6_def
          del: initialize_nodes_loop.simps)
qed

lemma lion6_constructed:
  "LionOptimizationLB 6 0 (sconst 0) =
     Inr (mk_algo pool6 []
            (Lion \<lparr>pride_size = 5, territories = [new_territory [0, 1, 2, 3, 4]], nomads = [],
                   migration_threshold = 4 / 5\<rparr>), sconst 0)"
proof -
  have len: "length pool6 = 6" by (simp add: pool6_def)
  have t: "initialize_territories 6 5 [0..<6] = Inr [new_territory [0, 1, 2, 3, 4]]"
  proof -
    have a: "initialize_territories 6 5 [0..<6] =
            Inr (map (\<lambda>k. new_territory [k * 5..<min 6 (k * 5 + 5)]) [0..<1])"
      using initialize_territories_eq[of 5 6] by simp
    have b: "[0..<1] = [0 :: nat]" by simp
    have c: "[0 * 5..<min 6 (0 * 5 + 5)] = [0, 1, 2, 3, 4 :: nat]" by (simp add: upt_rec)
    show ?thesis by (simp only: a b list.map c)
  qed
  show ?thesis
    by (simp add: LionOptimizationLB_def base_init_def pool6_drawn generate_tasks_def
          lion_init_def t len mk_algo_def Let_def del: upt_Suc)
qed

theorem lion_territories_at_construction_counterexample:
  "LionOptimizationLB 6 0 (sconst 0) =
     Inr (mk_algo pool6 []
            (Lion \<lparr>pride_size = 5, territories = [new_territory [0, 1, 2, 3, 4]], nomads = [],
                   migration_threshold = 4 / 5\<rparr>), sconst 0) \<and>
   length pool6 = 6 \<and> 5 \<notin> set (t_nodes (new_territory [0, 1, 2, 3, 4]))"
  using lion6_constructed by (simp add: pool6_def)

subsection \<open>A run that ends with a negative counter\<close>

lemma run_state_sel [simp]:
  "nodes (run_state ns c) = ns" "completed_tasks (run_state ns c) = c"
  "variant (run_state ns c) = Bat bat_fields" "num_nodes (run_state ns c) = 4"
  "num_tasks (run_state ns c) = 3" "fault_probability (run_state ns c) = 1 / 20"
  "min_nodes_for_operation (run_state ns c) = 3" "tasks (run_state ns c) = run_tasks"
  by (simp_all add: run_state_def mk_algo_def run_pool_def run_tasks_def)

lemma run_state_upd [simp]:
  "(run_state ns c)\<lparr>nodes := ns'\<rparr> = run_state ns' c"
  "(run_state ns c)\<lparr>completed_tasks := c'\<rparr> = run_state ns c'"
  by (simp_all add: run_state_def)

lemma run_state_start:
  "(mk_algo run_pool run_tasks (Bat bat_fields))\<lparr>completed_tasks := 0\<rparr> = run_state run_pool 0"
  by (simp add: run_state_def mk_algo_def)

lemma bat_fields_pulse [simp]: "pulse_rate bat_fields = 1 / 2"
  by (simp add: bat_fields_def)

lemma run_constructed:
  "BatAlgorithm 4 3 (run_draws @- sconst 0) =
     Inr (mk_algo run_pool run_tasks (Bat bat_fields),
          0 ## draw_high ## draw_high ## 0 ## draw_high ## draw_high ## sconst 0)"
proof -
  have n: "initialize_nodes 4 (run_draws @- sconst 0) =
      Inr (run_pool, 3800 ## 3800 ## 0 ## 3800 ## 3800 ## 0 ## 3800 ## 3800 ## 0 ##
                     0 ## draw_high ## draw_high ## 0 ## draw_high ## draw_high ## sconst 0)"
    by (simp add: initialize_nodes_def nat_lists run_draws_def randint_def random_uniform_def
          run_pool_def mk_node_def del: One_nat_def)
  have t: "generate_tasks 3 (3800 ## 3800 ## 0 ## 3800 ## 3800 ## 0 ## 3800 ## 3800 ## 0 ##
                     0 ## draw_high ## draw_high ## 0 ## draw_high ## draw_high ## sconst 0) =
      Inr (run_tasks, 0 ## draw_high ## draw_high ## 0 ## draw_high ## draw_high ## sconst 0)"
    by (simp add: generate_tasks_def nat_lists randint_def random_choice_def run_tasks_def
          mk_task_def del: One_nat_def)
  have len: "length run_pool = 4" "length run_tasks = 3"
    by (simp_all add: run_pool_def run_tasks_def)
  show ?thesis
    by (simp add: BatAlgorithm_def base_init_def n t mk_algo_def bat_fields_def len)
qed

lemma all_four_active:
  "active_nodes [mk_node 0 12000 x False, mk_node 1 8000 0 False, mk_node 2 8000 0 False,
                 mk_node 3 8000 0 False] = [0, 1, 2, 3]"
  by (simp add: active_nodes_def is_active_def upt_rec)

lemma run_first_task:
  "allocate_task (run_state run_pool 0) (mk_task 0 4000) (0 ## g) =
     Return (True, run_state [mk_node 0 12000 4000 False, mk_node 1 8000 0 False,
                              mk_node 2 8000 0 False, mk_node 3 8000 0 False] 0, g)"
proof -
  have a: "active_nodes (nodes (run_state run_pool 0)) = [0, 1, 2, 3]"
    by (simp add: run_pool_def all_four_active del: One_nat_def)
  have b: "py_min (<) (utilization (nodes (run_state run_pool 0))) [0, 1, 2, 3] = Inr 0"
    by (simp add: py_min_def utilization_def py_div_def run_pool_def)
  have u: "random_random (0 ## g) = (0, g)" by simp
  have p: "\<not> pulse_rate bat_fields < 0" by simp
  have f: "fits (nodes (run_state run_pool 0)) 0 (mk_task 0 4000)"
    by (simp add: fits_def run_pool_def)
  have d: "add_load run_pool 0 4000 = [mk_node 0 12000 4000 False, mk_node 1 8000 0 False,
                              mk_node 2 8000 0 False, mk_node 3 8000 0 False]"
    by (simp add: add_load_def run_pool_def)
  from bat_allocate_best[OF a _ b u p, of "mk_task 0 4000"] f d show ?thesis
    by (simp add: allocate_task_def)
qed

lemma run_random_first:
  assumes "x + 4000 \<le> 12000" and "0 \<le> x"
  shows "allocate_task
       (run_state [mk_node 0 12000 x False, mk_node 1 8000 0 False, mk_node 2 8000 0 False,
                   mk_node 3 8000 0 False] c)
       (mk_task i 4000) (draw_high ## 0 ## g) =
     Return (True, run_state [mk_node 0 12000 (x + 4000) False, mk_node 1 8000 0 False,
                              mk_node 2 8000 0 False, mk_node 3 8000 0 False] c, g)"
proof -
  let ?ns = "[mk_node 0 12000 x False, mk_node 1 8000 0 False, mk_node 2 8000 0 False,
              mk_node 3 8000 0 False]"
  have a: "active_nodes (nodes (run_state ?ns c)) = [0, 1, 2, 3]"
    by (simp add: all_four_active del: One_nat_def)
  have "py_div x 12000 = Inr (x / 12000)" "py_div 0 8000 = Inr 0"
    by (simp_all add: py_div_def)
  then have d: "\<exists>k. py_div x 12000 = Inr k" "\<exists>k. py_div 0 8000 = Inr k"
    by blast+
  have "\<exists>m. py_min (<) (utilization ?ns) [0, 1, 2, 3] = Inr m"
    by (rule py_min_ok) (simp_all add: utilization_def d)
  then obtain best
    where b: "py_min (<) (utilization (nodes (run_state ?ns c))) [0, 1, 2, 3] = Inr best"
    by auto
  have u: "random_random (draw_high ## 0 ## g) = (9007199254740991 / 9007199254740992, 0 ## g)"
    by simp
  have p: "pulse_rate bat_fields < (9007199254740991 / 9007199254740992 :: rat)" by simp
  have ch: "random_choice [0, 1, 2, 3 :: nat] (0 ## g) = Inr (0, g)" by simp
  have f: "fits (nodes (run_state ?ns c)) 0 (mk_task i 4000)"
    using assms by (simp add: fits_def)
  have d: "add_load ?ns 0 4000 = [mk_node 0 12000 (x + 4000) False, mk_node 1 8000 0 False,
                              mk_node 2 8000 0 False, mk_node 3 8000 0 False]"
    by (simp add: add_load_def)
  from bat_allocate_random[OF a _ b u p ch f] d show ?thesis
    by (simp add: allocate_task_def)
qed

lemma run_migration_refused:
  "allocate_task
       (run_state [mk_node 0 12000 12000 True, mk_node 1 8000 0 False, mk_node 2 8000 0 False,
                   mk_node 3 8000 0 False] 3)
       (migration_task 12000) (sconst 0) =
     Return (False, run_state [mk_node 0 12000 12000 True, mk_node 1 8000 0 False,
                               mk_node 2 8000 0 False, mk_node 3 8000 0 False] 3, sconst 0)"
proof -
  let ?ns = "[mk_node 0 12000 12000 True, mk_node 1 8000 0 False, mk_node 2 8000 0 False,
              mk_node 3 8000 0 False]"
  have a: "active_nodes (nodes (run_state ?ns 3)) = [1, 2, 3]"
    by (simp add: active_nodes_def is_active_def upt_rec)
  have b: "py_min (<) (utilization (nodes (run_state ?ns 3))) [1, 2, 3] = Inr 1"
    by (simp add: py_min_def utilization_def py_div_def)
  have u: "random_random (sconst 0) = (0, sconst 0)" by simp
  have p: "\<not> pulse_rate bat_fields < 0" by simp
  have f: "\<not> fits (nodes (run_state ?ns 3)) 1 (migration_task 12000)"
    by (simp add: fits_def)
  from bat_allocate_best[OF a _ b u p, of "migration_task 12000"] f show ?thesis
    by (simp add: allocate_task_def)
qed

lemma run_failure:
  "simulate_failure
       (run_state [mk_node 0 12000 12000 False, mk_node 1 8000 0 False, mk_node 2 8000 0 False,
                   mk_node 3 8000 0 False] 3) (sconst 0) =
     Return (run_state [mk_node 0 12000 12000 True, mk_node 1 8000 0 False,
                        mk_node 2 8000 0 False, mk_node 3 8000 0 False] (- 9), sconst 0)"
proof -
  let ?ns = "[mk_node 0 12000 12000 False, mk_node 1 8000 0 False, mk_node 2 8000 0 False,
              mk_node 3 8000 0 False]"
  have a: "not_failed_refs ?ns = [0, 1, 2, 3]"
    by (simp add: not_failed_refs_def upt_rec)
  have b: "max_failures (run_state ?ns 3) = 1" "current_failures (run_state ?ns 3) = 0"
    by (simp_all add: max_failures_def current_failures_def)
  have c: "py_int 12 = 12" by (simp add: py_int_def)
  show ?thesis
    by (simp add: simulate_failure_def Let_def a b c run_migration_refused del: One_nat_def)
qed

lemma run_metrics:
  "calculate_metrics
       (run_state [mk_node 0 12000 12000 True, mk_node 1 8000 0 False, mk_node 2 8000 0 False,
                   mk_node 3 8000 0 False] (- 9)) =
     \<lparr>avg_response_time = 1 / 10, throughput = - 300, fault_tolerance = 0,
      energy_consumption = 0, m_active_nodes = 3, m_completed_tasks = - 9\<rparr>"
  by (simp add: calculate_metrics_def Let_def)

lemma run_evaluated:
  "run (mk_algo run_pool run_tasks (Bat bat_fields))
       (0 ## draw_high ## draw_high ## 0 ## draw_high ## draw_high ## sconst 0) =
     Return (\<lparr>avg_response_time = 1 / 10, throughput = - 300, fault_tolerance = 0,
              energy_consumption = 0, m_active_nodes = 3, m_completed_tasks = - 9\<rparr>,
             run_state [mk_node 0 12000 12000 True, mk_node 1 8000 0 False,
                        mk_node 2 8000 0 False, mk_node 3 8000 0 False] (- 9),
             sconst 0)"
proof -
  have z: "sconst 0 = 0 ## sconst (0 :: nat)" by (subst siterate.ctr) simp
  have r3: "allocate_task
       (run_state [mk_node 0 12000 8000 False, mk_node 1 8000 0 False, mk_node 2 8000 0 False,
                   mk_node 3 8000 0 False] 2)
       (mk_task 2 4000) (draw_high ## sconst 0) =
     Return (True, run_state [mk_node 0 12000 12000 False, mk_node 1 8000 0 False,
                              mk_node 2 8000 0 False, mk_node 3 8000 0 False] 2, sconst 0)"
    using run_random_first[of 8000 2 2 "sconst 0"] z by simp
  have r2: "allocate_task
       (run_state [mk_node 0 12000 4000 False, mk_node 1 8000 0 False, mk_node 2 8000 0 False,
                   mk_node 3 8000 0 False] 1)
       (mk_task 1 4000) (draw_high ## 0 ## draw_high ## draw_high ## sconst 0) =
     Return (True, run_state [mk_node 0 12000 8000 False, mk_node 1 8000 0 False,
                              mk_node 2 8000 0 False, mk_node 3 8000 0 False] 1,
             draw_high ## draw_high ## sconst 0)"
    using run_random_first[of 4000 1 1 "draw_high ## draw_high ## sconst 0"] by simp
  show ?thesis
    unfolding run_def run_state_start mk_algo_sel
    by (simp add: run_tasks_def run_first_task r2 r3 run_failure run_metrics Let_def
          del: One_nat_def)
qed

text \<open>The part of the bounds that holds in every state, reachable or not.\<close>

lemma calculate_metrics_upper_bounds:
  "throughput (calculate_metrics s) \<le> 100"
  "0 \<le> fault_tolerance (calculate_metrics s)"
  "fault_tolerance (calculate_metrics s) \<le> 100"
  by (simp_all add: calculate_metrics_def Let_def)

lemma calculate_metrics_conventions:
  "num_tasks s = 0 \<Longrightarrow> throughput (calculate_metrics s) = 0"
  "filter failed (nodes s) = [] \<Longrightarrow> fault_tolerance (calculate_metrics s) = 100"
  "0 \<le> completed_tasks s \<Longrightarrow> 0 \<le> throughput (calculate_metrics s)"
  by (simp_all add: calculate_metrics_def Let_def)

text \<open>
  Claim C5: the behaviour of the program where the claim fails.  A Bat object of four
  nodes and three tasks is constructed and run.  The three tasks of 4000 are placed on
  the first node (capacity 12000); the fault injector then fails that node, the migration
  of its load of 12000 finds no node with that much room, and the counter of completed
  tasks drops from 3 to \<open>3 - 12 = -9\<close>.  The metrics report a throughput of \<open>-300\<close>: the
  collector caps the value at 100 but not at 0.
\<close>

theorem throughput_negative_after_lost_migration:
  "BatAlgorithm 4 3 (run_draws @- sconst 0) =
     Inr (mk_algo run_pool run_tasks (Bat bat_fields),
          0 ## draw_high ## draw_high ## 0 ## draw_high ## draw_high ## sconst 0) \<and>
   run (mk_algo run_pool run_tasks (Bat bat_fields))
       (0 ## draw_high ## draw_high ## 0 ## draw_high ## draw_high ## sconst 0) =
     Return (\<lparr>avg_response_time = 1 / 10, throughput = - 300, fault_tolerance = 0,
              energy_consumption = 0, m_active_nodes = 3, m_completed_tasks = - 9\<rparr>,
             run_state [mk_node 0 12000 12000 True, mk_node 1 8000 0 False,
                        mk_node 2 8000 0 False, mk_node 3 8000 0 False] (- 9),
             sconst 0)"
  using run_constructed run_evaluated by simp

section \<open>The invariant of a run\<close>

subsection \<open>Constructed objects\<close>

lemma initialize_nodes_loop_ids:
  "initialize_nodes_loop ids g = Inr (ns, g') \<Longrightarrow> map node_id ns = ids"
proof (induction ids arbitrary: g ns g')
  case Nil
  then show ?case by simp
next
  case (Cons i ids)
  obtain m g1 where m: "randint 2000 4000 g = Inr (m, g1)" by (simp add: randint_def)
  obtain c g2 where c: "randint 2000 4000 g1 = Inr (c, g2)" by (simp add: randint_def)
  obtain ec g3 where ec: "random_uniform (1 / 1000) (3 / 1000) g2 = (ec, g3)" by force
  from initialize_nodes_loop_ok[of ids g3] obtain rest g4 where
    rest: "initialize_nodes_loop ids g3 = Inr (rest, g4)" by blast
  from Cons.IH[OF rest] have "map node_id rest = ids" .
  moreover from Cons.prems m c ec rest have
    "ns = \<lparr>node_id = i, node_pe = 4, mips = m, capacity = of_int (4 * c), current_load = 0,
           failed = False, energy_coefficient = ec\<rparr> # rest"
    by simp
  ultimately show ?case by simp
qed

lemma base_init_invariant:
  assumes "base_init n m v g = Inr (s, g')"
  shows "length (nodes s) = num_nodes s \<and> num_nodes s = n \<and> variant s = v \<and>
         (\<forall>i<length (nodes s). node_id (nodes s ! i) = i) \<and> list_all is_active (nodes s)"
proof -
  from base_init_ok[of n m v g] assms have
    a: "num_nodes s = n" "length (nodes s) = n" "variant s = v"
       "\<forall>x\<in>set (nodes s). \<not> failed x \<and> current_load x = 0 \<and> 0 < capacity x"
    by auto
  from assms obtain g1 where "initialize_nodes n g = Inr (nodes s, g1)"
    by (auto simp: base_init_def split: sum.splits)
  then have "map node_id (nodes s) = [0..<n]"
    by (simp add: initialize_nodes_def initialize_nodes_loop_ids)
  then have "\<forall>i<length (nodes s). node_id (nodes s ! i) = i"
    by (metis a(2) add_0 length_map nth_map nth_upt)
  moreover from a(4) have "list_all is_active (nodes s)"
    by (simp add: list_all_iff is_active_def)
  ultimately show ?thesis using a by simp
qed

lemma constructed_invariant:
  assumes "LionOptimizationLB n m g = Inr (s, g') \<or> BatAlgorithm n m g = Inr (s, g') \<or>
           CrowSearchAlgorithm n m g = Inr (s, g') \<or>
           MonarchButterflyOptimization n m g = Inr (s, g')"
  shows "run_invariant At_allocation s"
  using assms
proof (elim disjE)
  assume "LionOptimizationLB n m g = Inr (s, g')"
  then obtain s0 l where "base_init n m (Lion \<lparr>pride_size = 0, territories = [], nomads = [],
                                 migration_threshold = 0\<rparr>) g = Inr (s0, g')"
    "s = s0\<lparr>variant := Lion l\<rparr>"
    by (auto simp: LionOptimizationLB_def split: sum.splits)
  with base_init_invariant[OF this(1)] show ?thesis by (simp add: run_invariant_def)
next
  assume "BatAlgorithm n m g = Inr (s, g')"
  from base_init_invariant[OF this[unfolded BatAlgorithm_def]] show ?thesis
    by (simp add: run_invariant_def)
next
  assume "MonarchButterflyOptimization n m g = Inr (s, g')"
  from base_init_invariant[OF this[unfolded MonarchButterflyOptimization_def]] show ?thesis
    by (simp add: run_invariant_def)
next
  assume "CrowSearchAlgorithm n m g = Inr (s, g')"
  from base_init_invariant[OF this[unfolded CrowSearchAlgorithm_def]] show ?thesis
    by (simp add: run_invariant_def memory_fresh_def)
qed

subsection \<open>The refresh loop on an aligned memory\<close>

lemma refresh_memory_pointwise:
  assumes "\<forall>i\<in>set idxs. i < length mem"
  shows "\<exists>mem'. refresh_memory ns active idxs mem = Inr mem' \<and> length mem' = length mem \<and>
     (\<forall>j<length mem. mem' ! j =
        (if j \<in> set idxs \<and> ns ! j \<in> set (map (\<lambda>k. ns ! k) active)
         then map_option (\<lambda>slot. slot\<lparr>mem_load := current_load (ns ! j)\<rparr>) (mem ! j)
         else mem ! j))"
  using assms
proof (induction idxs arbitrary: mem)
  case Nil
  then show ?case by simp
next
  case (Cons i rest)
  let ?A = "\<lambda>j. ns ! j \<in> set (map (\<lambda>k. ns ! k) active)"
  let ?upd = "\<lambda>j. map_option (\<lambda>slot. slot\<lparr>mem_load := current_load (ns ! j)\<rparr>)"
  from Cons.prems have i: "i < length mem" and r: "\<forall>k\<in>set rest. k < length mem" by simp_all
  show ?case
  proof (cases "?A i \<and> mem ! i \<noteq> None")
    case False
    then have eq: "refresh_memory ns active (i # rest) mem = refresh_memory ns active rest mem"
      using i by (auto split: option.splits)
    from Cons.IH[OF r] obtain mem' where
      m: "refresh_memory ns active rest mem = Inr mem'" "length mem' = length mem"
         "\<forall>j<length mem. mem' ! j = (if j \<in> set rest \<and> ?A j then ?upd j (mem ! j) else mem ! j)"
      by blast
    have "mem' ! j = (if j \<in> set (i # rest) \<and> ?A j then ?upd j (mem ! j) else mem ! j)"
      if "j < length mem" for j
      using m(3) that False by (cases "j = i") auto
    with m(1,2) eq show ?thesis by simp
  next
    case True
    then obtain slot where slot: "mem ! i = Some slot" by auto
    let ?mem1 = "mem[i := Some (slot\<lparr>mem_load := current_load (ns ! i)\<rparr>)]"
    from True slot i have eq:
      "refresh_memory ns active (i # rest) mem = refresh_memory ns active rest ?mem1" by simp
    from r have "\<forall>k\<in>set rest. k < length ?mem1" by simp
    from Cons.IH[OF this] obtain mem' where
      m: "refresh_memory ns active rest ?mem1 = Inr mem'" "length mem' = length ?mem1"
         "\<forall>j<length ?mem1. mem' ! j =
            (if j \<in> set rest \<and> ?A j then ?upd j (?mem1 ! j) else ?mem1 ! j)"
      by blast
    have "mem' ! j = (if j \<in> set (i # rest) \<and> ?A j then ?upd j (mem ! j) else mem ! j)"
      if "j < length mem" for j
      using m(3) that True slot i by (cases "j = i") auto
    with m(1,2) eq show ?thesis by simp
  qed
qed

text \<open>
  Where the \<^verbatim>\<open>id\<close>s of the nodes are their positions, a node is equal to an active node
  only if it is that node: \<^verbatim>\<open>node in active_nodes\<close> tests whether the node is active.
\<close>

lemma in_active_by_value:
  assumes "\<forall>i<length ns. node_id (ns ! i) = i" and "j < length ns"
  shows "ns ! j \<in> set (map (\<lambda>k. ns ! k) (active_nodes ns)) \<longleftrightarrow> is_active (ns ! j)"
proof
  assume "ns ! j \<in> set (map (\<lambda>k. ns ! k) (active_nodes ns))"
  then obtain k where k: "k \<in> set (active_nodes ns)" "ns ! j = ns ! k" by auto
  from k(1) have kl: "k < length ns" "is_active (ns ! k)" by (simp_all add: active_nodes_iff)
  from assms k(2) kl(1) have "j = k" by metis
  with kl(2) show "is_active (ns ! j)" by simp
next
  assume "is_active (ns ! j)"
  with assms(2) have "j \<in> set (active_nodes ns)" by (simp add: active_nodes_iff)
  then show "ns ! j \<in> set (map (\<lambda>k. ns ! k) (active_nodes ns))" by auto
qed

subsection \<open>One call of the Crow's \<open>allocate_task\<close>\<close>

lemma memory_seeded_iff:
  "memory_seeded ns mem \<longleftrightarrow>
     length mem = length ns \<and>
     (\<forall>i<length ns. \<exists>l. mem ! i = Some \<lparr>mem_node = i, mem_load = l\<rparr>)"
proof
  assume a: "memory_seeded ns mem"
  then have len: "length mem = length ns" by (simp add: memory_seeded_def)
  have "\<exists>l. mem ! i = Some \<lparr>mem_node = i, mem_load = l\<rparr>" if "i < length ns" for i
  proof -
    from a that len obtain slot where s: "mem ! i = Some slot" "mem_node slot = i"
      by (auto simp: memory_seeded_def split: option.splits)
    then have "slot = \<lparr>mem_node = i, mem_load = mem_load slot\<rparr>" by (cases slot) simp
    with s(1) show ?thesis by metis
  qed
  with len show "length mem = length ns \<and>
     (\<forall>i<length ns. \<exists>l. mem ! i = Some \<lparr>mem_node = i, mem_load = l\<rparr>)" by simp
next
  assume "length mem = length ns \<and>
     (\<forall>i<length ns. \<exists>l. mem ! i = Some \<lparr>mem_node = i, mem_load = l\<rparr>)"
  then show "memory_seeded ns mem" by (auto simp: memory_seeded_def)
qed

lemma memory_seeded_aligned: "memory_seeded ns mem \<Longrightarrow> memory_aligned ns mem"
  by (auto simp: memory_seeded_def memory_aligned_def split: option.splits)

lemma memory_fresh_aligned: "memory_fresh ns mem \<Longrightarrow> memory_aligned ns mem"
  by (simp add: memory_fresh_def memory_aligned_def)

lemma all_active: "list_all is_active ns \<Longrightarrow> active_nodes ns = [0..<length ns]"
  by (simp add: active_nodes_def list_all_length)

text \<open>
  On an aligned memory the call returns, for every task and every draw.  The memory it
  leaves has a slot for every node; the slot of each active node holds that node's load
  as it was when the call was made, the slot of any other node is as before.
\<close>

lemma crow_allocate_in_run:
  assumes v: "variant s = Crow c"
    and ids: "\<forall>i<length (nodes s). node_id (nodes s ! i) = i"
    and m: "memory_seeded (nodes s) (memory c) \<or> memory_fresh (nodes s) (memory c)"
  shows "\<exists>placed ns' mem'.
     crow_allocate s c t g =
       Return (placed, s\<lparr>variant := Crow (c\<lparr>memory := mem'\<rparr>), nodes := ns'\<rparr>, g) \<and>
     memory_seeded (nodes s) mem' \<and>
     (\<forall>i<length (nodes s). mem' ! i =
        (if is_active (nodes s ! i)
         then Some \<lparr>mem_node = i, mem_load = current_load (nodes s ! i)\<rparr>
         else memory c ! i)) \<and>
     (ns' = nodes s \<or> (\<exists>i. ns' = add_load (nodes s) i (mips_required t)))"
proof (cases "active_nodes (nodes s) = []")
  case True
  then have none: "\<forall>i<length (nodes s). \<not> is_active (nodes s ! i)"
    using active_nodes_iff[of _ "nodes s"] by auto
  have seeded: "memory_seeded (nodes s) (memory c)"
  proof (rule disjE[OF m])
    assume f: "memory_fresh (nodes s) (memory c)"
    then have "active_nodes (nodes s) = [0..<length (nodes s)]"
      by (simp add: memory_fresh_def all_active)
    with True have "nodes s = []" by simp
    with f show ?thesis by (simp add: memory_fresh_def memory_seeded_def)
  qed
  have same: "s\<lparr>variant := Crow (c\<lparr>memory := memory c\<rparr>), nodes := nodes s\<rparr> = s" using v by simp
  from True have "crow_allocate s c t g = Return (False, s, g)" by (simp add: crow_allocate_def)
  with same have "crow_allocate s c t g =
      Return (False, s\<lparr>variant := Crow (c\<lparr>memory := memory c\<rparr>), nodes := nodes s\<rparr>, g)"
    by simp
  with seeded none show ?thesis
    by (intro exI[of _ False] exI[of _ "nodes s"] exI[of _ "memory c"]) simp
next
  case False
  let ?ns = "nodes s"
  let ?A = "active_nodes ?ns"
  from False have ne: "?ns \<noteq> []" by (auto simp: active_nodes_def)
  define mem0 where "mem0 = (if \<not> list_ex (\<lambda>m. m \<noteq> None) (memory c)
      then map (\<lambda>n. Some \<lparr>mem_node = n, mem_load = current_load (?ns ! n)\<rparr>) ?A
      else memory c)"
  have m0: "length mem0 = length ?ns \<and>
      (\<forall>i<length ?ns. (\<exists>l. mem0 ! i = Some \<lparr>mem_node = i, mem_load = l\<rparr>) \<and>
         (\<not> is_active (?ns ! i) \<longrightarrow> mem0 ! i = memory c ! i))"
  proof (rule disjE[OF m])
    assume sd: "memory_seeded ?ns (memory c)"
    then have len: "length (memory c) = length ?ns"
      and sl: "\<forall>i<length ?ns. \<exists>l. memory c ! i = Some \<lparr>mem_node = i, mem_load = l\<rparr>"
      by (simp_all add: memory_seeded_iff)
    from ne len sl have "memory c ! 0 \<noteq> None" "0 < length (memory c)" by auto
    then have "list_ex (\<lambda>m. m \<noteq> None) (memory c)"
      unfolding list_ex_iff by (metis nth_mem)
    then have "mem0 = memory c" by (simp add: mem0_def)
    with len sl show ?thesis by simp
  next
    assume f: "memory_fresh ?ns (memory c)"
    then have all: "?A = [0..<length ?ns]" and act: "list_all is_active ?ns"
      and rep: "memory c = replicate (length ?ns) None"
      by (simp_all add: memory_fresh_def all_active)
    from rep have "\<not> list_ex (\<lambda>m. m \<noteq> None) (memory c)" by (simp add: list_ex_iff)
    then have "mem0 = map (\<lambda>n. Some \<lparr>mem_node = n, mem_load = current_load (?ns ! n)\<rparr>)
                        [0..<length ?ns]"
      by (simp add: mem0_def all)
    with act show ?thesis by (simp add: list_all_length)
  qed
  then have len0: "length mem0 = length ?ns" by simp
  then have "\<forall>i\<in>set [0..<length ?ns]. i < length mem0" by simp
  from refresh_memory_pointwise[OF this, of ?ns ?A] obtain mem where
    r: "refresh_memory ?ns ?A [0..<length ?ns] mem0 = Inr mem" and len: "length mem = length mem0"
    and pw: "\<forall>j<length mem0. mem ! j =
        (if j \<in> set [0..<length ?ns] \<and> ?ns ! j \<in> set (map (\<lambda>k. ?ns ! k) ?A)
         then map_option (\<lambda>slot. slot\<lparr>mem_load := current_load (?ns ! j)\<rparr>) (mem0 ! j)
         else mem0 ! j)"
    by blast
  have point: "mem ! i = (if is_active (?ns ! i)
         then Some \<lparr>mem_node = i, mem_load = current_load (?ns ! i)\<rparr> else memory c ! i)"
    if "i < length ?ns" for i
  proof -
    from m0 that obtain l where l: "mem0 ! i = Some \<lparr>mem_node = i, mem_load = l\<rparr>"
      and keep: "\<not> is_active (?ns ! i) \<longrightarrow> mem0 ! i = memory c ! i" by blast
    from pw that len0 in_active_by_value[OF ids that]
    have "mem ! i = (if is_active (?ns ! i)
         then map_option (\<lambda>slot. slot\<lparr>mem_load := current_load (?ns ! i)\<rparr>) (mem0 ! i)
         else mem0 ! i)" by simp
    with l keep show ?thesis by simp
  qed
  then have seeded: "memory_seeded ?ns mem"
    unfolding memory_seeded_iff using len len0 m0 by (metis (no_types, lifting))
  let ?s1 = "s\<lparr>variant := Crow (c\<lparr>memory := mem\<rparr>)\<rparr>"
  have unfold: "crow_allocate s c t g =
      (let valid = valid_memories ?ns mem
       in if valid = [] then Return (False, ?s1, g)
          else case py_min (<) (\<lambda>m. py_div (mem_load m) (capacity (?ns ! mem_node m))) valid of
                 Inl e \<Rightarrow> Raise e ?s1
               | Inr best_memory \<Rightarrow>
                   if fits ?ns (mem_node best_memory) t
                   then Return (True, ?s1\<lparr>nodes := add_load ?ns (mem_node best_memory) (mips_required t)\<rparr>, g)
                   else Return (False, ?s1, g))"
    using False r by (simp add: crow_allocate_def Let_def mem0_def)
  have s1: "?s1 = s\<lparr>variant := Crow (c\<lparr>memory := mem\<rparr>), nodes := ?ns\<rparr>" by simp
  show ?thesis
  proof (cases "valid_memories ?ns mem = []")
    case True
    with unfold have "crow_allocate s c t g = Return (False, ?s1, g)" by (simp add: Let_def)
    with s1 have "crow_allocate s c t g =
        Return (False, s\<lparr>variant := Crow (c\<lparr>memory := mem\<rparr>), nodes := ?ns\<rparr>, g)" by simp
    with seeded point show ?thesis
      by (intro exI[of _ False] exI[of _ ?ns] exI[of _ mem]) simp
  next
    case nonempty: False
    from py_min_ok[OF nonempty, of "\<lambda>m. py_div (mem_load m) (capacity (?ns ! mem_node m))" "(<)"]
      valid_memories_key[of _ ?ns mem]
    obtain best where
      best: "py_min (<) (\<lambda>m. py_div (mem_load m) (capacity (?ns ! mem_node m)))
               (valid_memories ?ns mem) = Inr best"
      by blast
    show ?thesis
    proof (cases "fits ?ns (mem_node best) t")
      case True
      with unfold nonempty best have "crow_allocate s c t g =
          Return (True, s\<lparr>variant := Crow (c\<lparr>memory := mem\<rparr>),
                           nodes := add_load ?ns (mem_node best) (mips_required t)\<rparr>, g)"
        by (simp add: Let_def)
      with seeded point show ?thesis
        by (intro exI[of _ True] exI[of _ "add_load ?ns (mem_node best) (mips_required t)"]
              exI[of _ mem]) auto
    next
      case False
      with unfold nonempty best have "crow_allocate s c t g = Return (False, ?s1, g)"
        by (simp add: Let_def)
      with s1 have "crow_allocate s c t g =
          Return (False, s\<lparr>variant := Crow (c\<lparr>memory := mem\<rparr>), nodes := ?ns\<rparr>, g)" by simp
      with seeded point show ?thesis
        by (intro exI[of _ False] exI[of _ ?ns] exI[of _ mem]) simp
    qed
  qed
qed

subsection \<open>The invariant is kept by every call of a run, and no call raises\<close>

lemma allocate_task_ids:
  assumes "allocate_task s t g = Return (b, s', g')"
  shows "map node_id (nodes s') = map node_id (nodes s)"
  using assms
proof (cases rule: allocate_task_returnE)
  case (refused v)
  then show ?thesis by simp
next
  case (placed v i)
  then show ?thesis by (simp add: map_add_load)
next
  case (moved v nm i amt l)
  then show ?thesis by (simp add: map_add_load map_sub_load)
qed

lemma ids_kept:
  assumes "map node_id ns' = map node_id ns" and "\<forall>i<length ns. node_id (ns ! i) = i"
  shows "length ns' = length ns \<and> (\<forall>i<length ns'. node_id (ns' ! i) = i)"
proof -
  from assms(1) have len: "length ns' = length ns" by (rule map_eq_imp_length_eq)
  moreover have "node_id (ns' ! i) = i" if "i < length ns'" for i
  proof -
    from that have "node_id (ns' ! i) = map node_id ns' ! i" by simp
    also have "\<dots> = map node_id ns ! i" by (simp only: assms(1))
    also from that len have "\<dots> = node_id (ns ! i)" by simp
    finally show ?thesis using assms(2) that len by simp
  qed
  ultimately show ?thesis by simp
qed

lemma run_invariant_counter [simp]:
  "run_invariant p (s\<lparr>completed_tasks := c\<rparr>) = run_invariant p s"
  by (cases "variant s") (simp_all add: run_invariant_def)

lemma run_invariant_weaken: "run_invariant At_failure_check s \<Longrightarrow> run_invariant p s"
  by (auto simp: run_invariant_def split: variant.splits)

lemma run_invariant_migration: "run_invariant At_migration s \<Longrightarrow> run_invariant p s"
  by (auto simp: run_invariant_def split: variant.splits)

lemma run_invariant_nodes:
  assumes "run_invariant At_failure_check s" and "map node_id ns' = map node_id (nodes s)"
  shows "run_invariant At_failure_check (s\<lparr>nodes := ns'\<rparr>)"
proof -
  from assms(1) have ids: "\<forall>i<length (nodes s). node_id (nodes s ! i) = i"
    by (simp add: run_invariant_def)
  from ids_kept[OF assms(2) ids] assms(1) show ?thesis
    by (auto simp: run_invariant_def memory_seeded_def split: variant.splits)
qed

lemma node_id_failed_update [simp]:
  "map node_id (ns[v := (ns ! v)\<lparr>failed := f\<rparr>]) = map node_id ns"
  by (cases "v < length ns") (simp_all add: map_update list_update_same_conv list_update_beyond)

lemma node_id_load_update [simp]:
  "map node_id (ns[v := (ns ! v)\<lparr>current_load := x\<rparr>]) = map node_id ns"
  by (cases "v < length ns") (simp_all add: map_update list_update_same_conv list_update_beyond)

text \<open>
  In a state of a run, \<open>allocate_task\<close> returns, for every task and every draw, and leaves
  a state that satisfies the invariant again, now with a seeded memory.
\<close>

lemma allocate_task_in_run:
  assumes inv: "run_invariant p s"
  shows "\<exists>placed s' g'. allocate_task s t g = Return (placed, s', g') \<and>
           run_invariant At_failure_check s'"
proof -
  from inv have len: "length (nodes s) = num_nodes s"
    and ids: "\<forall>i<length (nodes s). node_id (nodes s ! i) = i"
    by (simp_all add: run_invariant_def)
  have frame: "run_invariant At_failure_check s'"
    if r: "allocate_task s t g = Return (placed, s', g')"
      and c: "\<And>c. variant s = Crow c \<Longrightarrow>
                 \<exists>c'. variant s' = Crow c' \<and> memory_seeded (nodes s) (memory c')"
    for placed s' g'
  proof -
    from allocate_task_frame[OF r] obtain v ns where
      fr: "s' = s\<lparr>variant := v, nodes := ns\<rparr>" "variant_step s v" by blast
    from ids_kept[OF allocate_task_ids[OF r] ids] have
      k: "length (nodes s') = length (nodes s)" "\<forall>i<length (nodes s'). node_id (nodes s' ! i) = i"
      by simp_all
    from fr(1) have n: "num_nodes s' = num_nodes s" by simp
    show ?thesis
    proof (cases "variant s")
      case (Lion l)
      with fr obtain l' where "variant s' = Lion l'"
        by (cases v) (simp_all add: variant_step_def)
      with k n len show ?thesis by (simp add: run_invariant_def)
    next
      case (Bat b)
      with fr have "variant s' = Bat b" by (cases v) (simp_all add: variant_step_def)
      with k n len show ?thesis by (simp add: run_invariant_def)
    next
      case (Monarch m)
      with fr have "variant s' = Monarch m" by (cases v) (simp_all add: variant_step_def)
      moreover from inv Monarch have "bar m = 5" by (simp add: run_invariant_def)
      ultimately show ?thesis using k n len by (simp add: run_invariant_def)
    next
      case (Crow c0)
      from c[OF this] obtain c' where
        "variant s' = Crow c'" "memory_seeded (nodes s) (memory c')" by blast
      with k n len show ?thesis by (simp add: run_invariant_def memory_seeded_def)
    qed
  qed
  show ?thesis
  proof (cases "variant s")
    case (Crow c)
    from inv Crow have m: "memory_seeded (nodes s) (memory c) \<or> memory_fresh (nodes s) (memory c)"
      by (auto simp: run_invariant_def)
    from crow_allocate_in_run[OF Crow ids m, of t g] obtain placed ns' mem' where
      r: "crow_allocate s c t g =
            Return (placed, s\<lparr>variant := Crow (c\<lparr>memory := mem'\<rparr>), nodes := ns'\<rparr>, g)"
      and sd: "memory_seeded (nodes s) mem'" by blast
    from r Crow have at: "allocate_task s t g =
        Return (placed, s\<lparr>variant := Crow (c\<lparr>memory := mem'\<rparr>), nodes := ns'\<rparr>, g)"
      by (simp add: allocate_task_def)
    have "run_invariant At_failure_check (s\<lparr>variant := Crow (c\<lparr>memory := mem'\<rparr>), nodes := ns'\<rparr>)"
      by (rule frame[OF at]) (use sd in simp)
    with at show ?thesis by blast
  next
    case (Lion l)
    then have "\<not> (\<exists>c. variant s = Crow c)" "\<not> (\<exists>m. variant s = Monarch m \<and> bar m + 1 = 0)"
      by simp_all
    with allocate_task_result[of s t g] obtain placed s' g' where
      r: "allocate_task s t g = Return (placed, s', g')" by (elim disjE exE conjE) blast+
    have "run_invariant At_failure_check s'" by (rule frame[OF r]) (use Lion in simp)
    with r show ?thesis by blast
  next
    case (Bat b)
    then have "\<not> (\<exists>c. variant s = Crow c)" "\<not> (\<exists>m. variant s = Monarch m \<and> bar m + 1 = 0)"
      by simp_all
    with allocate_task_result[of s t g] obtain placed s' g' where
      r: "allocate_task s t g = Return (placed, s', g')" by (elim disjE exE conjE) blast+
    have "run_invariant At_failure_check s'" by (rule frame[OF r]) (use Bat in simp)
    with r show ?thesis by blast
  next
    case (Monarch m)
    with inv have "bar m = 5" by (simp add: run_invariant_def)
    with Monarch have "\<not> (\<exists>c. variant s = Crow c)"
      "\<not> (\<exists>m. variant s = Monarch m \<and> bar m + 1 = 0)" by simp_all
    with allocate_task_result[of s t g] obtain placed s' g' where
      r: "allocate_task s t g = Return (placed, s', g')" by (elim disjE exE conjE) blast+
    have "run_invariant At_failure_check s'" by (rule frame[OF r]) (use Monarch in simp)
    with r show ?thesis by blast
  qed
qed

text \<open>The same for \<open>simulate_failure\<close>, where \<^verbatim>\<open>run\<close> calls it.\<close>

lemma simulate_failure_in_run:
  assumes inv: "run_invariant At_failure_check s"
  shows "\<exists>s' g'. simulate_failure s g = Return (s', g') \<and> run_invariant At_failure_check s'"
proof -
  obtain r where r: "simulate_failure s g = r" by simp
  from r show ?thesis
  proof (cases rule: simulate_failure_cases)
    case suppressed
    with r inv show ?thesis by simp
  next
    case (spared g2)
    with r inv show ?thesis by simp
  next
    case (idle victim g2)
    from run_invariant_nodes[OF inv, of "(nodes s)[victim := (nodes s ! victim)\<lparr>failed := True\<rparr>]"]
    have "run_invariant At_failure_check
            (s\<lparr>nodes := (nodes s)[victim := (nodes s ! victim)\<lparr>failed := True\<rparr>]\<rparr>)" by simp
    with r idle(4) show ?thesis by simp
  next
    case (attempted victim g1 g2)
    let ?s1 = "s\<lparr>nodes := (nodes s)[victim := (nodes s ! victim)\<lparr>failed := True\<rparr>]\<rparr>"
    from run_invariant_nodes[OF inv, of "(nodes s)[victim := (nodes s ! victim)\<lparr>failed := True\<rparr>]"]
    have inv1: "run_invariant At_failure_check ?s1" by simp
    from allocate_task_in_run[OF inv1, of "migration_task (current_load (nodes s ! victim))" g2]
    obtain migrated s2 g3 where
      a: "allocate_task ?s1 (migration_task (current_load (nodes s ! victim))) g2
            = Return (migrated, s2, g3)"
      and inv2: "run_invariant At_failure_check s2" by blast
    show ?thesis
    proof (cases migrated)
      case True
      from run_invariant_nodes[OF inv2, of "(nodes s2)[victim := (nodes s2 ! victim)\<lparr>current_load := 0\<rparr>]"]
      have "run_invariant At_failure_check
              (s2\<lparr>nodes := (nodes s2)[victim := (nodes s2 ! victim)\<lparr>current_load := 0\<rparr>]\<rparr>)"
        by simp
      with r attempted(9) a True show ?thesis by simp
    next
      case False
      with r attempted(9) a inv2 show ?thesis by simp
    qed
  qed
qed

subsection \<open>Every state of a run satisfies the invariant\<close>

lemma run_reaches_invariant: "run_reaches p s \<Longrightarrow> run_invariant p s"
proof (induction rule: run_reaches.induct)
  case (constructed_lion n m g s g')
  then show ?case using constructed_invariant by blast
next
  case (constructed_bat n m g s g')
  then show ?case using constructed_invariant by blast
next
  case (constructed_crow n m g s g')
  then show ?case using constructed_invariant by blast
next
  case (constructed_monarch n m g s g')
  then show ?case using constructed_invariant by blast
next
  case (reset s)
  then show ?case by simp
next
  case (allocated s t g placed s' g')
  from allocate_task_in_run[OF allocated.IH, of t g] allocated.hyps(2)
  have "run_invariant At_failure_check s'" by auto
  then show ?case by simp
next
  case (no_failure s)
  from no_failure.IH show ?case by (rule run_invariant_weaken)
next
  case (failure s g s' g')
  from simulate_failure_in_run[OF failure.IH, of g] failure.hyps(2)
  have "run_invariant At_failure_check s'" by auto
  then show ?case by (rule run_invariant_weaken)
next
  case (migration s victim)
  from run_invariant_nodes[OF migration.IH,
      of "(nodes s)[victim := (nodes s ! victim)\<lparr>failed := True\<rparr>]"]
  have "run_invariant At_failure_check
          (s\<lparr>nodes := (nodes s)[victim := (nodes s ! victim)\<lparr>failed := True\<rparr>]\<rparr>)" by simp
  then show ?case by (rule run_invariant_weaken)
qed

text \<open>
  The loop of \<^verbatim>\<open>run\<close> passes only through states of \<open>run_reaches\<close>, and it returns: no
  call that it makes raises.
\<close>

lemma run_loop_in_run:
  "run_reaches At_allocation s \<Longrightarrow>
     \<exists>s' g'. run_loop s ts g = Return (s', g') \<and> run_reaches At_allocation s'"
proof (induction ts arbitrary: s g)
  case Nil
  then show ?case by simp
next
  case (Cons t rest)
  from allocate_task_in_run[OF run_reaches_invariant[OF Cons.prems], of t g]
  obtain placed s1 g1 where a: "allocate_task s t g = Return (placed, s1, g1)" by blast
  define s2 where "s2 = (if placed then s1\<lparr>completed_tasks := completed_tasks s1 + 1\<rparr> else s1)"
  from run_reaches.allocated[OF Cons.prems a] have r2: "run_reaches At_failure_check s2"
    by (simp add: s2_def)
  obtain u g2 where u: "random_random g1 = (u, g2)" by force
  have step: "run_loop s (t # rest) g =
      (if u < 1 / 10 then
         (case simulate_failure s2 g2 of
            Raise e s' \<Rightarrow> Raise e s'
          | Return (s3, g3) \<Rightarrow> run_loop s3 rest g3)
       else run_loop s2 rest g2)"
    using a u by (simp add: s2_def Let_def)
  show ?case
  proof (cases "u < 1 / 10")
    case False
    from Cons.IH[OF run_reaches.no_failure[OF r2], of g2] step False show ?thesis by simp
  next
    case True
    from simulate_failure_in_run[OF run_reaches_invariant[OF r2], of g2]
    obtain s3 g3 where f: "simulate_failure s2 g2 = Return (s3, g3)" by blast
    from Cons.IH[OF run_reaches.failure[OF r2 f], of g3] step True f show ?thesis by simp
  qed
qed

lemma run_returns:
  assumes "run_reaches At_allocation s"
  shows "\<exists>m s' g'. run s g = Return (m, s', g') \<and> run_reaches At_allocation s'"
proof -
  from run_loop_in_run[OF run_reaches.reset[OF assms], of "tasks s" g]
  obtain s' g' where "run_loop (s\<lparr>completed_tasks := 0\<rparr>) (tasks s) g = Return (s', g')"
    "run_reaches At_allocation s'" by blast
  then show ?thesis by (simp add: run_def)
qed

section \<open>Two runs of a Crow object\<close>

subsection \<open>One node, three tasks: the third task is refused\<close>

lemma crow1_constructed:
  "CrowSearchAlgorithm 1 3 (crow1_draws @- sconst 0) = Inr (crow1_object, sconst 0)"
proof -
  have n: "initialize_nodes 1 (crow1_draws @- sconst 0)
             = Inr ([mk_node 0 8000 0 False],
                    3800 ## 3800 ## 0 ## 3800 ## 3800 ## 0 ## 3800 ## 3800 ## 0 ## sconst 0)"
    by (simp add: initialize_nodes_def upt_rec crow1_draws_def randint_def random_uniform_def
          mk_node_def)
  have t: "generate_tasks 3
             (3800 ## 3800 ## 0 ## 3800 ## 3800 ## 0 ## 3800 ## 3800 ## 0 ## sconst 0)
             = Inr (run_tasks, sconst 0)"
    by (simp add: generate_tasks_def nat_lists randint_def random_choice_def run_tasks_def
          mk_task_def del: One_nat_def)
  have len: "length run_tasks = 3" by (simp add: run_tasks_def)
  have r: "replicate 1 None = [None]" by simp
  show ?thesis
    by (simp add: CrowSearchAlgorithm_def base_init_def n t len r crow1_object_def mk_algo_def
          crow1_fields_def del: One_nat_def)
qed

lemma crow1_state_sel [simp]:
  "nodes (crow1_state x r c) = [mk_node 0 8000 x False]"
  "variant (crow1_state x r c)
     = Crow (crow1_fields\<lparr>memory := [Some \<lparr>mem_node = 0, mem_load = r\<rparr>]\<rparr>)"
  "completed_tasks (crow1_state x r c) = c"
  by (simp_all add: crow1_state_def)

lemma crow1_state_upd [simp]:
  "(crow1_state x r c)\<lparr>completed_tasks := c'\<rparr> = crow1_state x r c'"
  "(crow1_state x r c)
     \<lparr>variant := Crow (crow1_fields\<lparr>memory := [Some \<lparr>mem_node = 0, mem_load = r'\<rparr>]\<rparr>)\<rparr>
     = crow1_state x r' c"
  "(crow1_state x r c)\<lparr>nodes := [mk_node 0 8000 x' False]\<rparr> = crow1_state x' r c"
  by (simp_all add: crow1_state_def)

lemma one_node_active: "active_nodes [mk_node 0 8000 x False] = [0]"
  by (simp add: active_nodes_def is_active_def)

lemma one_node_refresh:
  "refresh_memory [mk_node 0 8000 x False] [0] [0] [Some \<lparr>mem_node = 0, mem_load = r\<rparr>]
   = Inr [Some \<lparr>mem_node = 0, mem_load = x\<rparr>]"
  by simp

lemma one_node_valid:
  "valid_memories [mk_node 0 8000 x False] [Some \<lparr>mem_node = 0, mem_load = x\<rparr>]
     = [\<lparr>mem_node = 0, mem_load = x\<rparr>]"
  by (simp add: valid_memories_def is_active_def)

lemma one_node_best:
  "py_min (<) (\<lambda>m. py_div (mem_load m) (capacity ([mk_node 0 8000 x False] ! mem_node m)))
     [\<lparr>mem_node = 0, mem_load = x\<rparr>] = Inr \<lparr>mem_node = 0, mem_load = x\<rparr>"
  by (simp add: py_min_def py_div_def)

text \<open>The first call seeds the memory and places the task.\<close>

lemma crow1_first_call:
  "allocate_task crow1_object (mk_task i 4000) g = Return (True, crow1_state 4000 0 0, g)"
proof -
  have m: "memory crow1_fields = [None]" by (simp add: crow1_fields_def)
  have f: "fits [mk_node 0 8000 0 False] 0 (mk_task i 4000)" by (simp add: fits_def)
  have a: "add_load [mk_node 0 8000 0 False] 0 4000 = [mk_node 0 8000 4000 False]"
    by (simp add: add_load_def)
  have "allocate_task crow1_object (mk_task i 4000) g =
      Return (True, crow1_object
        \<lparr>variant := Crow (crow1_fields\<lparr>memory := [Some \<lparr>mem_node = 0, mem_load = 0\<rparr>]\<rparr>),
         nodes := [mk_node 0 8000 4000 False]\<rparr>, g)"
    by (simp add: allocate_task_def crow_allocate_def Let_def crow1_object_def one_node_active m
          one_node_refresh one_node_valid one_node_best f a del: refresh_memory.simps)
  then show ?thesis by (simp add: crow1_state_def crow1_object_def mk_algo_def)
qed

text \<open>
  A later call refreshes the slot to the load of the node, then places the task if it
  fits and refuses it otherwise.
\<close>

lemma crow1_call:
  "allocate_task (crow1_state x r c) (mk_task i 4000) g =
     (if x + 4000 \<le> 8000 then Return (True, crow1_state (x + 4000) x c, g)
      else Return (False, crow1_state x x c, g))"
proof -
  have f: "fits [mk_node 0 8000 x False] 0 (mk_task i 4000) \<longleftrightarrow> x + 4000 \<le> 8000"
    by (simp add: fits_def)
  have a: "add_load [mk_node 0 8000 x False] 0 4000 = [mk_node 0 8000 (x + 4000) False]"
    by (simp add: add_load_def)
  show ?thesis
    by (simp add: allocate_task_def crow_allocate_def Let_def one_node_active
          one_node_refresh one_node_valid one_node_best f a del: refresh_memory.simps)
qed

lemma crow1_reaches: "run_reaches At_allocation (crow1_state 8000 4000 2)"
proof -
  have r0: "run_reaches At_allocation crow1_object"
    by (rule run_reaches.constructed_crow[OF crow1_constructed])
  from run_reaches.allocated[OF r0 crow1_first_call[of 0 "sconst 0"]]
  have "run_reaches At_failure_check (crow1_state 4000 0 1)" by simp
  then have r1: "run_reaches At_allocation (crow1_state 4000 0 1)"
    by (rule run_reaches.no_failure)
  have "allocate_task (crow1_state 4000 0 1) (mk_task 1 4000) (sconst 0)
          = Return (True, crow1_state 8000 4000 1, sconst 0)"
    by (simp add: crow1_call)
  from run_reaches.allocated[OF r1 this]
  have "run_reaches At_failure_check (crow1_state 8000 4000 2)" by simp
  then show ?thesis by (rule run_reaches.no_failure)
qed

lemma crow1_refusal:
  "allocate_task (crow1_state 8000 4000 2) (mk_task 2 4000) (sconst 0)
     = Return (False, crow1_state 8000 8000 2, sconst 0)"
  by (simp add: crow1_call)

subsection \<open>Four nodes: a failure after the first allocation\<close>

lemma crow4_constructed:
  "CrowSearchAlgorithm 4 1 (crow4_draws @- sconst 0) =
     Inr (mk_algo crow4_pool [mk_task 0 4000] (Crow crow4_fields), sconst 0)"
proof -
  have n: "initialize_nodes 4 (crow4_draws @- sconst 0)
             = Inr (crow4_pool, 3800 ## 3800 ## 0 ## sconst 0)"
    by (simp add: initialize_nodes_def nat_lists crow4_draws_def randint_def random_uniform_def
          crow4_pool_def mk_node_def del: One_nat_def)
  have t: "generate_tasks 1 (3800 ## 3800 ## 0 ## sconst 0) = Inr ([mk_task 0 4000], sconst 0)"
    by (simp add: generate_tasks_def randint_def mk_task_def)
  have r: "replicate 4 None = [None, None, None, None]" by (simp add: numeral_eq_Suc)
  have len: "length crow4_pool = 4" by (simp add: crow4_pool_def)
  show ?thesis
    by (simp add: CrowSearchAlgorithm_def base_init_def n t r mk_algo_def crow4_fields_def len
          del: One_nat_def)
qed

lemma crow4_state_sel [simp]:
  "nodes (crow4_state ns mem c) = ns"
  "variant (crow4_state ns mem c) = Crow (crow4_fields\<lparr>memory := mem\<rparr>)"
  "completed_tasks (crow4_state ns mem c) = c"
  "num_nodes (crow4_state ns mem c) = 4"
  "min_nodes_for_operation (crow4_state ns mem c) = 3"
  "fault_probability (crow4_state ns mem c) = 1 / 20"
  by (simp_all add: crow4_state_def crow4_pool_def)

lemma crow4_state_upd [simp]:
  "(crow4_state ns mem c)\<lparr>completed_tasks := c'\<rparr> = crow4_state ns mem c'"
  "(crow4_state ns mem c)\<lparr>variant := Crow (crow4_fields\<lparr>memory := mem'\<rparr>)\<rparr>
     = crow4_state ns mem' c"
  "(crow4_state ns mem c)\<lparr>nodes := ns'\<rparr> = crow4_state ns' mem c"
  by (simp_all add: crow4_state_def)

lemma crow4_memory_sel [simp]: "memory (crow4_fields\<lparr>memory := mem\<rparr>) = mem"
  by simp

text \<open>The first call: every node is active, the memory is seeded with a slot for each.\<close>

lemma crow4_first_call:
  "allocate_task (mk_algo crow4_pool [mk_task 0 4000] (Crow crow4_fields)) (mk_task 0 4000) g =
     Return (True,
       crow4_state [mk_node 0 8000 4000 False, mk_node 1 8000 0 False, mk_node 2 8000 0 False,
                    mk_node 3 8000 0 False] crow4_memory 0, g)"
proof -
  let ?mem = "[Some \<lparr>mem_node = 0, mem_load = 0\<rparr>, Some \<lparr>mem_node = 1, mem_load = 0\<rparr>,
               Some \<lparr>mem_node = 2, mem_load = 0\<rparr>, Some \<lparr>mem_node = 3, mem_load = 0\<rparr>]"
  have a: "active_nodes crow4_pool = [0, 1, 2, 3]"
    by (simp add: active_nodes_def is_active_def crow4_pool_def upt_rec)
  have m: "memory crow4_fields = [None, None, None, None]" by (simp add: crow4_fields_def)
  have l: "current_load (crow4_pool ! 0) = 0" "current_load (crow4_pool ! 1) = 0"
    "current_load (crow4_pool ! 2) = 0" "current_load (crow4_pool ! 3) = 0"
    by (simp_all add: crow4_pool_def)
  have r: "refresh_memory crow4_pool [0, 1, 2, 3] [0..<length crow4_pool] ?mem = Inr ?mem"
    by (simp add: crow4_pool_def upt_rec)
  have v: "valid_memories crow4_pool ?mem =
      [\<lparr>mem_node = 0, mem_load = 0\<rparr>, \<lparr>mem_node = 1, mem_load = 0\<rparr>,
       \<lparr>mem_node = 2, mem_load = 0\<rparr>, \<lparr>mem_node = 3, mem_load = 0\<rparr>]"
    by (simp add: valid_memories_def is_active_def crow4_pool_def)
  have b: "py_min (<) (\<lambda>m. py_div (mem_load m) (capacity (crow4_pool ! mem_node m)))
      [\<lparr>mem_node = 0, mem_load = 0\<rparr>, \<lparr>mem_node = 1, mem_load = 0\<rparr>,
       \<lparr>mem_node = 2, mem_load = 0\<rparr>, \<lparr>mem_node = 3, mem_load = 0\<rparr>]
      = Inr \<lparr>mem_node = 0, mem_load = 0\<rparr>"
    by (simp add: py_min_def py_div_def crow4_pool_def)
  have f: "fits crow4_pool 0 (mk_task 0 4000)" by (simp add: fits_def crow4_pool_def)
  have d: "add_load crow4_pool 0 4000 =
      [mk_node 0 8000 4000 False, mk_node 1 8000 0 False, mk_node 2 8000 0 False,
       mk_node 3 8000 0 False]"
    by (simp add: add_load_def crow4_pool_def)
  have "allocate_task (mk_algo crow4_pool [mk_task 0 4000] (Crow crow4_fields)) (mk_task 0 4000) g =
      Return (True, (mk_algo crow4_pool [mk_task 0 4000] (Crow crow4_fields))
        \<lparr>variant := Crow (crow4_fields\<lparr>memory := ?mem\<rparr>),
         nodes := [mk_node 0 8000 4000 False, mk_node 1 8000 0 False, mk_node 2 8000 0 False,
                   mk_node 3 8000 0 False]\<rparr>, g)"
    by (simp add: allocate_task_def crow_allocate_def Let_def a m l r v b f d
          del: refresh_memory.simps One_nat_def)
  then show ?thesis by (simp add: crow4_state_def crow4_memory_def mk_algo_def)
qed

text \<open>
  The call for the migration: the first node has failed, its slot is kept as it is, the
  other slots are refreshed, and the second node takes the load.
\<close>

lemma crow4_migration_call:
  "allocate_task
     (crow4_state [mk_node 0 8000 4000 True, mk_node 1 8000 0 False, mk_node 2 8000 0 False,
                   mk_node 3 8000 0 False] crow4_memory 1)
     (migration_task 4000) g =
   Return (True,
     crow4_state [mk_node 0 8000 4000 True, mk_node 1 8000 4000 False, mk_node 2 8000 0 False,
                  mk_node 3 8000 0 False] crow4_memory 1, g)"
proof -
  let ?ns = "[mk_node 0 8000 4000 True, mk_node 1 8000 0 False, mk_node 2 8000 0 False,
              mk_node 3 8000 0 False]"
  let ?mem = "[Some \<lparr>mem_node = 0, mem_load = 0\<rparr>, Some \<lparr>mem_node = 1, mem_load = 0\<rparr>,
               Some \<lparr>mem_node = 2, mem_load = 0\<rparr>, Some \<lparr>mem_node = 3, mem_load = 0\<rparr>]"
  have a: "active_nodes ?ns = [1, 2, 3]"
    by (simp add: active_nodes_def is_active_def upt_rec)
  have r: "refresh_memory ?ns [1, 2, 3] [0, Suc 0, Suc (Suc 0), Suc (Suc (Suc 0))] ?mem = Inr ?mem"
    by (simp add: mk_node_def)
  have v: "valid_memories ?ns ?mem =
      [\<lparr>mem_node = 1, mem_load = 0\<rparr>, \<lparr>mem_node = 2, mem_load = 0\<rparr>,
       \<lparr>mem_node = 3, mem_load = 0\<rparr>]"
    by (simp add: valid_memories_def is_active_def)
  have b: "py_min (<) (\<lambda>m. py_div (mem_load m) (capacity (?ns ! mem_node m)))
      [\<lparr>mem_node = 1, mem_load = 0\<rparr>, \<lparr>mem_node = 2, mem_load = 0\<rparr>,
       \<lparr>mem_node = 3, mem_load = 0\<rparr>]
      = Inr \<lparr>mem_node = 1, mem_load = 0\<rparr>"
    by (simp add: py_min_def py_div_def)
  have f: "fits ?ns 1 (migration_task 4000)" by (simp add: fits_def)
  have d: "add_load ?ns 1 4000 =
      [mk_node 0 8000 4000 True, mk_node 1 8000 4000 False, mk_node 2 8000 0 False,
       mk_node 3 8000 0 False]"
    by (simp add: add_load_def)
  show ?thesis
    by (simp add: allocate_task_def crow_allocate_def Let_def crow4_memory_def nat_lists
          a r v b f d del: refresh_memory.simps One_nat_def)
qed

lemma crow4_failure_in_run:
  "simulate_failure
     (crow4_state [mk_node 0 8000 4000 False, mk_node 1 8000 0 False, mk_node 2 8000 0 False,
                   mk_node 3 8000 0 False] crow4_memory 1) (sconst 0) =
   Return (crow4_state [mk_node 0 8000 0 True, mk_node 1 8000 4000 False,
                        mk_node 2 8000 0 False, mk_node 3 8000 0 False] crow4_memory 1,
           sconst 0)"
proof -
  let ?ns = "[mk_node 0 8000 4000 False, mk_node 1 8000 0 False, mk_node 2 8000 0 False,
              mk_node 3 8000 0 False]"
  have a: "not_failed_refs ?ns = [0, 1, 2, 3]"
    by (simp add: not_failed_refs_def upt_rec)
  have b: "max_failures (crow4_state ?ns crow4_memory 1) = 1"
    "current_failures (crow4_state ?ns crow4_memory 1) = 0"
    by (simp_all add: max_failures_def current_failures_def)
  show ?thesis
    by (simp add: simulate_failure_def Let_def a b crow4_migration_call del: One_nat_def)
qed

lemma crow4_reaches:
  "run_reaches At_allocation
     (crow4_state [mk_node 0 8000 0 True, mk_node 1 8000 4000 False, mk_node 2 8000 0 False,
                   mk_node 3 8000 0 False] crow4_memory 1)"
proof -
  have r0: "run_reaches At_allocation (mk_algo crow4_pool [mk_task 0 4000] (Crow crow4_fields))"
    by (rule run_reaches.constructed_crow[OF crow4_constructed])
  from run_reaches.allocated[OF r0 crow4_first_call[of "sconst 0"]]
  have "run_reaches At_failure_check
          (crow4_state [mk_node 0 8000 4000 False, mk_node 1 8000 0 False, mk_node 2 8000 0 False,
                        mk_node 3 8000 0 False] crow4_memory 1)" by simp
  from run_reaches.failure[OF this crow4_failure_in_run] show ?thesis .
qed

text \<open>
  The next call: the slot of the second node is refreshed to the load it took, the slot
  of the failed node is not touched, and the third node is now the least loaded.
\<close>

lemma crow4_next_call:
  "allocate_task
     (crow4_state [mk_node 0 8000 0 True, mk_node 1 8000 4000 False, mk_node 2 8000 0 False,
                   mk_node 3 8000 0 False] crow4_memory 1)
     (mk_task 1 4000) g =
   Return (True,
     crow4_state [mk_node 0 8000 0 True, mk_node 1 8000 4000 False, mk_node 2 8000 4000 False,
                  mk_node 3 8000 0 False]
       [Some \<lparr>mem_node = 0, mem_load = 0\<rparr>, Some \<lparr>mem_node = 1, mem_load = 4000\<rparr>,
        Some \<lparr>mem_node = 2, mem_load = 0\<rparr>, Some \<lparr>mem_node = 3, mem_load = 0\<rparr>] 1, g)"
proof -
  let ?ns = "[mk_node 0 8000 0 True, mk_node 1 8000 4000 False, mk_node 2 8000 0 False,
              mk_node 3 8000 0 False]"
  let ?mem = "[Some \<lparr>mem_node = 0, mem_load = 0\<rparr>, Some \<lparr>mem_node = 1, mem_load = 0\<rparr>,
               Some \<lparr>mem_node = 2, mem_load = 0\<rparr>, Some \<lparr>mem_node = 3, mem_load = 0\<rparr>]"
  let ?mem' = "[Some \<lparr>mem_node = 0, mem_load = 0\<rparr>, Some \<lparr>mem_node = 1, mem_load = 4000\<rparr>,
               Some \<lparr>mem_node = 2, mem_load = 0\<rparr>, Some \<lparr>mem_node = 3, mem_load = 0\<rparr>]"
  have a: "active_nodes ?ns = [1, 2, 3]"
    by (simp add: active_nodes_def is_active_def upt_rec)
  have r: "refresh_memory ?ns [1, 2, 3] [0, Suc 0, Suc (Suc 0), Suc (Suc (Suc 0))] ?mem = Inr ?mem'"
    by (simp add: mk_node_def)
  have v: "valid_memories ?ns ?mem' =
      [\<lparr>mem_node = 1, mem_load = 4000\<rparr>, \<lparr>mem_node = 2, mem_load = 0\<rparr>,
       \<lparr>mem_node = 3, mem_load = 0\<rparr>]"
    by (simp add: valid_memories_def is_active_def)
  have b: "py_min (<) (\<lambda>m. py_div (mem_load m) (capacity (?ns ! mem_node m)))
      [\<lparr>mem_node = 1, mem_load = 4000\<rparr>, \<lparr>mem_node = 2, mem_load = 0\<rparr>,
       \<lparr>mem_node = 3, mem_load = 0\<rparr>]
      = Inr \<lparr>mem_node = 2, mem_load = 0\<rparr>"
    by (simp add: py_min_def py_div_def)
  have f: "fits ?ns 2 (mk_task 1 4000)" by (simp add: fits_def)
  have d: "add_load ?ns 2 4000 =
      [mk_node 0 8000 0 True, mk_node 1 8000 4000 False, mk_node 2 8000 4000 False,
       mk_node 3 8000 0 False]"
    by (simp add: add_load_def)
  show ?thesis
    by (simp add: allocate_task_def crow_allocate_def Let_def crow4_memory_def nat_lists
          a r v b f d del: refresh_memory.simps One_nat_def)
qed

lemma memory_aligned_length:
  "length ns' = length ns \<Longrightarrow> memory_aligned ns mem \<Longrightarrow> memory_aligned ns' mem"
  by (simp add: memory_aligned_def)

text \<open>
  Claim C7.  In every state of a run of a Crow object, the memory holds one slot for each
  of the \<^verbatim>\<open>num_nodes\<close> nodes of the pool, in the order of the pool, and a slot that is not
  empty remembers the node at its own position.  In such a state a call of
  \<open>allocate_task\<close> returns, for every task and every draw, and leaves a memory of the same
  shape in which the slot of every node that was active at the call holds that node's
  \<open>current_load\<close> as the call found it, and the slot of every other node is as it was.
  The states of a run are those of \<open>run_reaches\<close>: the calls that \<^verbatim>\<open>run\<close> and
  \<^verbatim>\<open>simulate_failure\<close> make on a constructed object, in their order.
\<close>

theorem crow_memory_in_a_run:
  assumes "run_reaches p s" and "variant s = Crow c"
  shows "length (memory c) = num_nodes s \<and> memory_aligned (nodes s) (memory c) \<and>
         (\<exists>placed ns' mem'.
            allocate_task s t g =
              Return (placed, s\<lparr>variant := Crow (c\<lparr>memory := mem'\<rparr>), nodes := ns'\<rparr>, g) \<and>
            length mem' = num_nodes s \<and> memory_aligned ns' mem' \<and>
            (\<forall>i<length (nodes s). mem' ! i =
               (if is_active (nodes s ! i)
                then Some \<lparr>mem_node = i, mem_load = current_load (nodes s ! i)\<rparr>
                else memory c ! i)))"
proof -
  from run_reaches_invariant[OF assms(1)] assms(2) have
    len: "length (nodes s) = num_nodes s" and
    ids: "\<forall>i<length (nodes s). node_id (nodes s ! i) = i" and
    m: "memory_seeded (nodes s) (memory c) \<or> memory_fresh (nodes s) (memory c)"
    by (auto simp: run_invariant_def)
  from m have al: "memory_aligned (nodes s) (memory c)"
    using memory_seeded_aligned memory_fresh_aligned by blast
  then have l0: "length (memory c) = num_nodes s" using len by (simp add: memory_aligned_def)
  from crow_allocate_in_run[OF assms(2) ids m, of t g] obtain placed ns' mem' where
    r: "crow_allocate s c t g =
          Return (placed, s\<lparr>variant := Crow (c\<lparr>memory := mem'\<rparr>), nodes := ns'\<rparr>, g)"
    and sd: "memory_seeded (nodes s) mem'"
    and pw: "\<forall>i<length (nodes s). mem' ! i =
        (if is_active (nodes s ! i)
         then Some \<lparr>mem_node = i, mem_load = current_load (nodes s ! i)\<rparr>
         else memory c ! i)"
    and ns: "ns' = nodes s \<or> (\<exists>i. ns' = add_load (nodes s) i (mips_required t))"
    by blast
  from ns have ln: "length ns' = length (nodes s)" by (auto simp: length_add_load)
  from sd have al': "memory_aligned (nodes s) mem'" by (rule memory_seeded_aligned)
  then have l1: "length mem' = num_nodes s" using len by (simp add: memory_aligned_def)
  from memory_aligned_length[OF ln al'] have al2: "memory_aligned ns' mem'" .
  from r assms(2) have "allocate_task s t g =
      Return (placed, s\<lparr>variant := Crow (c\<lparr>memory := mem'\<rparr>), nodes := ns'\<rparr>, g)"
    by (simp add: allocate_task_def)
  with l1 al2 pw have "\<exists>placed ns' mem'.
            allocate_task s t g =
              Return (placed, s\<lparr>variant := Crow (c\<lparr>memory := mem'\<rparr>), nodes := ns'\<rparr>, g) \<and>
            length mem' = num_nodes s \<and> memory_aligned ns' mem' \<and>
            (\<forall>i<length (nodes s). mem' ! i =
               (if is_active (nodes s ! i)
                then Some \<lparr>mem_node = i, mem_load = current_load (nodes s ! i)\<rparr>
                else memory c ! i))"
    by (intro exI[of _ placed] exI[of _ ns'] exI[of _ mem']) simp
  with l0 al show ?thesis by simp
qed

text \<open>
  The theorem at the state that the run of a four-node object reaches when its first
  node fails after the first allocation and its load migrates to the second node; the
  call that follows is evaluated as well.
\<close>

theorem crow_memory_in_a_run_witness:
  "run_reaches At_allocation
     (crow4_state [mk_node 0 8000 0 True, mk_node 1 8000 4000 False, mk_node 2 8000 0 False,
                   mk_node 3 8000 0 False] crow4_memory 1) \<and>
   variant (crow4_state [mk_node 0 8000 0 True, mk_node 1 8000 4000 False,
                         mk_node 2 8000 0 False, mk_node 3 8000 0 False] crow4_memory 1)
     = Crow (crow4_fields\<lparr>memory := crow4_memory\<rparr>) \<and>
   length crow4_memory = 4 \<and>
   memory_aligned [mk_node 0 8000 0 True, mk_node 1 8000 4000 False, mk_node 2 8000 0 False,
                   mk_node 3 8000 0 False] crow4_memory \<and>
   allocate_task
     (crow4_state [mk_node 0 8000 0 True, mk_node 1 8000 4000 False, mk_node 2 8000 0 False,
                   mk_node 3 8000 0 False] crow4_memory 1)
     (mk_task 1 4000) (sconst 0) =
   Return (True,
     crow4_state [mk_node 0 8000 0 True, mk_node 1 8000 4000 False, mk_node 2 8000 4000 False,
                  mk_node 3 8000 0 False]
       [Some \<lparr>mem_node = 0, mem_load = 0\<rparr>, Some \<lparr>mem_node = 1, mem_load = 4000\<rparr>,
        Some \<lparr>mem_node = 2, mem_load = 0\<rparr>, Some \<lparr>mem_node = 3, mem_load = 0\<rparr>] 1,
     sconst 0) \<and>
   memory_aligned [mk_node 0 8000 0 True, mk_node 1 8000 4000 False, mk_node 2 8000 4000 False,
                   mk_node 3 8000 0 False]
     [Some \<lparr>mem_node = 0, mem_load = 0\<rparr>, Some \<lparr>mem_node = 1, mem_load = 4000\<rparr>,
      Some \<lparr>mem_node = 2, mem_load = 0\<rparr>, Some \<lparr>mem_node = 3, mem_load = 0\<rparr>]"
proof -
  let ?s = "crow4_state [mk_node 0 8000 0 True, mk_node 1 8000 4000 False,
                         mk_node 2 8000 0 False, mk_node 3 8000 0 False] crow4_memory 1"
  let ?s' = "crow4_state [mk_node 0 8000 0 True, mk_node 1 8000 4000 False,
                          mk_node 2 8000 4000 False, mk_node 3 8000 0 False]
       [Some \<lparr>mem_node = 0, mem_load = 0\<rparr>, Some \<lparr>mem_node = 1, mem_load = 4000\<rparr>,
        Some \<lparr>mem_node = 2, mem_load = 0\<rparr>, Some \<lparr>mem_node = 3, mem_load = 0\<rparr>] 2"
  have v: "variant ?s = Crow (crow4_fields\<lparr>memory := crow4_memory\<rparr>)" by simp
  have v': "variant ?s' = Crow (crow4_fields\<lparr>memory :=
       [Some \<lparr>mem_node = 0, mem_load = 0\<rparr>, Some \<lparr>mem_node = 1, mem_load = 4000\<rparr>,
        Some \<lparr>mem_node = 2, mem_load = 0\<rparr>, Some \<lparr>mem_node = 3, mem_load = 0\<rparr>]\<rparr>)" by simp
  from run_reaches.allocated[OF crow4_reaches crow4_next_call[of "sconst 0"]]
  have r': "run_reaches At_failure_check ?s'" by simp
  note t = crow_memory_in_a_run[OF crow4_reaches v, of "mk_task 1 4000" "sconst 0"]
  note t' = crow_memory_in_a_run[OF r' v', of "mk_task 1 4000" "sconst 0"]
  from t[THEN conjunct1] have a: "length crow4_memory = 4" by simp
  from t[THEN conjunct2, THEN conjunct1] have b:
    "memory_aligned [mk_node 0 8000 0 True, mk_node 1 8000 4000 False, mk_node 2 8000 0 False,
                     mk_node 3 8000 0 False] crow4_memory" by simp
  from t'[THEN conjunct2, THEN conjunct1] have c:
    "memory_aligned [mk_node 0 8000 0 True, mk_node 1 8000 4000 False, mk_node 2 8000 4000 False,
                     mk_node 3 8000 0 False]
       [Some \<lparr>mem_node = 0, mem_load = 0\<rparr>, Some \<lparr>mem_node = 1, mem_load = 4000\<rparr>,
        Some \<lparr>mem_node = 2, mem_load = 0\<rparr>, Some \<lparr>mem_node = 3, mem_load = 0\<rparr>]" by simp
  show ?thesis
    by (intro conjI) (rule crow4_reaches v a b crow4_next_call c)+
qed

text \<open>
  The hypothesis on the order of the calls cannot be dropped: the two methods are
  public, and \<open>simulate_failure\<close> called on a constructed object before any allocation,
  which no run does, makes the first \<open>allocate_task\<close> seed three slots for four nodes and
  raise \<^verbatim>\<open>IndexError\<close>.
\<close>

lemma crow_failure_before_first_allocation:
  "simulate_failure (mk_algo crow4_pool [mk_task 0 4000] (Crow crow4_fields)) (sconst 0) =
     Return ((mk_algo crow4_pool [mk_task 0 4000] (Crow crow4_fields))\<lparr>nodes := crow4_failed\<rparr>,
             sconst 0) \<and>
   allocate_task ((mk_algo crow4_pool [mk_task 0 4000] (Crow crow4_fields))\<lparr>nodes := crow4_failed\<rparr>)
     (mk_task 0 4000) (sconst 0) =
   Raise IndexError
     ((mk_algo crow4_pool [mk_task 0 4000] (Crow crow4_fields))
        \<lparr>nodes := crow4_failed,
         variant := Crow (crow4_fields
           \<lparr>memory := [Some \<lparr>mem_node = 1, mem_load = 0\<rparr>, Some \<lparr>mem_node = 2, mem_load = 0\<rparr>,
                       Some \<lparr>mem_node = 3, mem_load = 0\<rparr>]\<rparr>)\<rparr>)"
proof -
  have a: "not_failed_refs crow4_pool = [0, 1, 2, 3]"
    by (simp add: not_failed_refs_def crow4_pool_def upt_rec)
  have b: "max_failures (mk_algo crow4_pool [mk_task 0 4000] (Crow crow4_fields)) = 1"
    "current_failures (mk_algo crow4_pool [mk_task 0 4000] (Crow crow4_fields)) = 0"
    by (simp_all add: max_failures_def current_failures_def crow4_pool_def)
  have c: "crow4_pool[0 := (crow4_pool ! 0)\<lparr>failed := True\<rparr>] = crow4_failed"
    by (simp add: crow4_pool_def crow4_failed_def)
  have d: "\<not> 0 < current_load (crow4_failed ! 0)" by (simp add: crow4_failed_def)
  have fail: "simulate_failure (mk_algo crow4_pool [mk_task 0 4000] (Crow crow4_fields)) (sconst 0) =
     Return ((mk_algo crow4_pool [mk_task 0 4000] (Crow crow4_fields))\<lparr>nodes := crow4_failed\<rparr>,
             sconst 0)"
    by (simp add: simulate_failure_def Let_def a b c d del: One_nat_def)
  have e: "active_nodes crow4_failed = [1, 2, 3]"
    by (simp add: active_nodes_def is_active_def crow4_failed_def upt_rec)
  have m: "memory crow4_fields = [None, None, None, None]" by (simp add: crow4_fields_def)
  have s: "current_load (crow4_failed ! 1) = 0" "current_load (crow4_failed ! 2) = 0"
    "current_load (crow4_failed ! 3) = 0"
    by (simp_all add: crow4_failed_def)
  have r: "refresh_memory crow4_failed [1, 2, 3] [0..<length crow4_failed]
             [Some \<lparr>mem_node = 1, mem_load = 0\<rparr>, Some \<lparr>mem_node = 2, mem_load = 0\<rparr>,
              Some \<lparr>mem_node = 3, mem_load = 0\<rparr>]
           = Inl (IndexError,
               [Some \<lparr>mem_node = 1, mem_load = 0\<rparr>, Some \<lparr>mem_node = 2, mem_load = 0\<rparr>,
                Some \<lparr>mem_node = 3, mem_load = 0\<rparr>])"
    by (simp add: crow4_failed_def upt_rec mk_node_def)
  have "allocate_task ((mk_algo crow4_pool [mk_task 0 4000] (Crow crow4_fields))\<lparr>nodes := crow4_failed\<rparr>)
     (mk_task 0 4000) (sconst 0) =
   Raise IndexError
     ((mk_algo crow4_pool [mk_task 0 4000] (Crow crow4_fields))
        \<lparr>nodes := crow4_failed,
         variant := Crow (crow4_fields
           \<lparr>memory := [Some \<lparr>mem_node = 1, mem_load = 0\<rparr>, Some \<lparr>mem_node = 2, mem_load = 0\<rparr>,
                       Some \<lparr>mem_node = 3, mem_load = 0\<rparr>]\<rparr>)\<rparr>)"
    by (simp add: allocate_task_def crow_allocate_def Let_def e m s r
          del: refresh_memory.simps One_nat_def)
  with fail show ?thesis by simp
qed

lemma allocate_task_returns:
  assumes "\<not> (\<exists>c. variant s = Crow c)" and "\<not> (\<exists>m. variant s = Monarch m \<and> bar m + 1 = 0)"
  shows "\<exists>ok s' g'. allocate_task s t g = Return (ok, s', g')"
  using allocate_task_result[of s t g] assms by (elim disjE exE conjE) blast+

lemma allocate_task_refused_state:
  assumes r: "allocate_task s t g = Return (False, s', g')"
  shows "case variant s of
           Lion l \<Rightarrow> \<exists>nms. s' = s\<lparr>variant := Lion (l\<lparr>nomads := nms\<rparr>)\<rparr>
         | Crow c \<Rightarrow> \<exists>mem. s' = s\<lparr>variant := Crow (c\<lparr>memory := mem\<rparr>)\<rparr>
         | _ \<Rightarrow> s' = s"
proof (cases "variant s")
  case (Lion l)
  from r Lion have la: "lion_allocate s l t g = Return (False, s', g')"
    by (simp add: allocate_task_def)
  from lion_allocate_result[OF Lion, of t g] la
  obtain nms where "s' = s\<lparr>variant := Lion (l\<lparr>territories := territories l, nomads := nms\<rparr>)\<rparr>"
    by (elim exE conjE disjE) auto
  then have "s' = s\<lparr>variant := Lion (l\<lparr>nomads := nms\<rparr>)\<rparr>" by simp
  with Lion show ?thesis by auto
next
  case (Bat b)
  with r have "bat_allocate s b t g = Return (False, s', g')" by (simp add: allocate_task_def)
  with bat_allocate_result[of s b t g] have "s' = s" by auto
  with Bat show ?thesis by simp
next
  case (Crow c)
  with r have ca: "crow_allocate s c t g = Return (False, s', g')" by (simp add: allocate_task_def)
  have same: "s = s\<lparr>variant := Crow (c\<lparr>memory := memory c\<rparr>)\<rparr>" using Crow by simp
  from crow_allocate_result[of s c t g] ca
  have "s' = s \<or> (\<exists>mem. s' = s\<lparr>variant := Crow (c\<lparr>memory := mem\<rparr>)\<rparr>)"
    by (elim exE conjE disjE) auto
  with same have "\<exists>mem. s' = s\<lparr>variant := Crow (c\<lparr>memory := mem\<rparr>)\<rparr>" by metis
  with Crow show ?thesis by simp
next
  case (Monarch m)
  with r have ma: "monarch_allocate s m t g = Return (False, s', g')"
    by (simp add: allocate_task_def)
  then have "s' = s"
    by (auto simp: monarch_allocate_def Let_def split: prod.splits sum.splits if_splits)
  with Monarch show ?thesis by simp
qed

text \<open>
  Claim C9, as amended.  The claim as stated (no call raises, and a call that returns
  \<open>False\<close> mutates nothing) fails in its second half: a refusing call may still have built
  the Lion's nomad list, or seeded or refreshed the Crow's memory.  What holds: in every
  state of a run, of any of the four variants, \<open>allocate_task\<close> returns, for every task
  and every draw; the Lion, the Bat and the Monarch with \<open>bar \<noteq> -1\<close> (the constructor sets
  5) return in any state at all; and for every variant a call that returns \<open>False\<close> leaves
  the node pool and every field of the base class as they were, the only fields that may
  differ being the Lion's nomad list and the Crow's memory.
\<close>

theorem allocate_task_refusal_keeps_pool:
  "(run_reaches p s \<or>
    \<not> (\<exists>c. variant s = Crow c) \<and> \<not> (\<exists>m. variant s = Monarch m \<and> bar m + 1 = 0) \<longrightarrow>
      (\<exists>ok s' g'. allocate_task s t g = Return (ok, s', g'))) \<and>
   (\<forall>s' g'. allocate_task s t g = Return (False, s', g') \<longrightarrow>
      nodes s' = nodes s \<and>
      (case variant s of
         Lion l \<Rightarrow> \<exists>nms. s' = s\<lparr>variant := Lion (l\<lparr>nomads := nms\<rparr>)\<rparr>
       | Crow c \<Rightarrow> \<exists>mem. s' = s\<lparr>variant := Crow (c\<lparr>memory := mem\<rparr>)\<rparr>
       | _ \<Rightarrow> s' = s))"
proof (intro conjI allI impI)
  assume "run_reaches p s \<or>
    \<not> (\<exists>c. variant s = Crow c) \<and> \<not> (\<exists>m. variant s = Monarch m \<and> bar m + 1 = 0)"
  then show "\<exists>ok s' g'. allocate_task s t g = Return (ok, s', g')"
  proof
    assume "run_reaches p s"
    from allocate_task_in_run[OF run_reaches_invariant[OF this], of t g] show ?thesis by blast
  next
    assume "\<not> (\<exists>c. variant s = Crow c) \<and> \<not> (\<exists>m. variant s = Monarch m \<and> bar m + 1 = 0)"
    then show ?thesis using allocate_task_returns[of s t g] by blast
  qed
next
  fix s' g' assume r: "allocate_task s t g = Return (False, s', g')"
  from allocate_task_frame[OF r] show "nodes s' = nodes s" by auto
  from allocate_task_refused_state[OF r]
  show "case variant s of
         Lion l \<Rightarrow> \<exists>nms. s' = s\<lparr>variant := Lion (l\<lparr>nomads := nms\<rparr>)\<rparr>
       | Crow c \<Rightarrow> \<exists>mem. s' = s\<lparr>variant := Crow (c\<lparr>memory := mem\<rparr>)\<rparr>
       | _ \<Rightarrow> s' = s" .
qed

text \<open>
  The theorem at the third call of the run of a one-node object: the node is full, the
  call is made in a state of the run, it returns \<open>False\<close> and leaves the pool as it was.
\<close>

theorem allocate_task_refusal_keeps_pool_witness:
  "run_reaches At_allocation (crow1_state 8000 4000 2) \<and>
   (\<exists>ok s' g'. allocate_task (crow1_state 8000 4000 2) (mk_task 2 4000) (sconst 0)
                  = Return (ok, s', g')) \<and>
   allocate_task (crow1_state 8000 4000 2) (mk_task 2 4000) (sconst 0)
     = Return (False, crow1_state 8000 8000 2, sconst 0) \<and>
   nodes (crow1_state 8000 8000 2) = nodes (crow1_state 8000 4000 2) \<and>
   (\<exists>mem. crow1_state 8000 8000 2 =
      (crow1_state 8000 4000 2)
        \<lparr>variant := Crow (crow1_fields\<lparr>memory := [Some \<lparr>mem_node = 0, mem_load = 4000\<rparr>]\<rparr>
                            \<lparr>memory := mem\<rparr>)\<rparr>)"
proof -
  note t = allocate_task_refusal_keeps_pool[of At_allocation "crow1_state 8000 4000 2"
      "mk_task 2 4000" "sconst 0"]
  from t[THEN conjunct1] crow1_reaches have a:
    "\<exists>ok s' g'. allocate_task (crow1_state 8000 4000 2) (mk_task 2 4000) (sconst 0)
                  = Return (ok, s', g')" by blast
  from t[THEN conjunct2, THEN spec, THEN spec, THEN mp, OF crow1_refusal]
  have b: "nodes (crow1_state 8000 8000 2) = nodes (crow1_state 8000 4000 2)"
    and c: "\<exists>mem. crow1_state 8000 8000 2 =
      (crow1_state 8000 4000 2)
        \<lparr>variant := Crow (crow1_fields\<lparr>memory := [Some \<lparr>mem_node = 0, mem_load = 4000\<rparr>]\<rparr>
                            \<lparr>memory := mem\<rparr>)\<rparr>"
    by simp_all
  show ?thesis by (intro conjI) (rule crow1_reaches a crow1_refusal b c)+
qed

text \<open>
  The claim as stated fails at that call: it is a call of the run, it returns \<open>False\<close>,
  and the slot of the memory, which remembered a load of 4000, now remembers 8000.
\<close>

theorem allocate_task_refusal_keeps_pool_counterexample:
  "CrowSearchAlgorithm 1 3 (crow1_draws @- sconst 0) = Inr (crow1_object, sconst 0) \<and>
   allocate_task crow1_object (mk_task 0 4000) (sconst 0)
     = Return (True, crow1_state 4000 0 0, sconst 0) \<and>
   allocate_task (crow1_state 4000 0 1) (mk_task 1 4000) (sconst 0)
     = Return (True, crow1_state 8000 4000 1, sconst 0) \<and>
   run_reaches At_allocation (crow1_state 8000 4000 2) \<and>
   allocate_task (crow1_state 8000 4000 2) (mk_task 2 4000) (sconst 0)
     = Return (False, crow1_state 8000 8000 2, sconst 0) \<and>
   variant (crow1_state 8000 4000 2)
     = Crow (crow1_fields\<lparr>memory := [Some \<lparr>mem_node = 0, mem_load = 4000\<rparr>]\<rparr>) \<and>
   variant (crow1_state 8000 8000 2)
     = Crow (crow1_fields\<lparr>memory := [Some \<lparr>mem_node = 0, mem_load = 8000\<rparr>]\<rparr>) \<and>
   crow1_state 8000 8000 2 \<noteq> crow1_state 8000 4000 2"
proof -
  have "memory (crow1_fields\<lparr>memory := [Some \<lparr>mem_node = 0, mem_load = 8000\<rparr>]\<rparr>)
          \<noteq> memory (crow1_fields\<lparr>memory := [Some \<lparr>mem_node = 0, mem_load = 4000\<rparr>]\<rparr>)"
    by simp
  then have "variant (crow1_state 8000 8000 2) \<noteq> variant (crow1_state 8000 4000 2)"
    by (metis crow1_state_sel(2) variant.inject(3))
  then have ne: "crow1_state 8000 8000 2 \<noteq> crow1_state 8000 4000 2" by metis
  have second: "allocate_task (crow1_state 4000 0 1) (mk_task 1 4000) (sconst 0)
     = Return (True, crow1_state 8000 4000 1, sconst 0)"
    by (simp add: crow1_call)
  show ?thesis
    by (intro conjI)
       (rule crow1_constructed crow1_first_call second crow1_reaches crow1_refusal
          crow1_state_sel(2) ne)+
qed

end
